theory Spec2Isabelle
  imports Main "HOL-Library.Word" "HOL-Library.Char_ord"
begin

section \<open>Errors and outcomes\<close>

text \<open>
  Go functions of \<^verbatim>\<open>tuf/repo.go\<close> report failure through a returned \<^verbatim>\<open>error\<close>
  value and abort through \<^verbatim>\<open>panic\<close>.  Error values are modelled by the datatype
  \<open>error\<close>: \<open>ErrTargetSeen\<close> is the package-level sentinel \<^verbatim>\<open>errTargetSeen\<close>
  (compared by identity in \<^verbatim>\<open>getDelegatedTarget\<close>), \<open>OsError\<close> is an error of the
  operating system for a path, \<open>Errorf fmt args\<close> is \<^verbatim>\<open>errors.Errorf(fmt, args...)\<close>
  with the format left unexpanded, \<open>Wrap e msg\<close> is \<^verbatim>\<open>errors.Wrap(e, msg)\<close> for a
  non-nil \<open>e\<close>, and \<open>ErrExternal\<close> stands for any other error produced by a
  collaborator (transport, parsing, a post-fetch test).  A nil \<^verbatim>\<open>error\<close> is \<open>None\<close>.
\<close>

datatype errno = ENOENT | EACCES | ENOTDIR | ELOOP

datatype error =
    ErrTargetSeen
  | OsError errno string
  | Errorf string "string list"
  | Wrap error string
  | ErrExternal string

text \<open>A call either returns a value or panics with a message.\<close>

datatype 'a outcome = Returns 'a | Panics string

section \<open>Fetch options\<close>

text \<open>
  \<^verbatim>\<open>tester\<close> is an interface with the single method \<^verbatim>\<open>test([]byte) error\<close>.
  The structs \<^verbatim>\<open>rootOptions\<close> and \<^verbatim>\<open>roleOptions\<close> are embedded in
  \<^verbatim>\<open>repoOptions\<close>.  \<^verbatim>\<open>expectedLength\<close> is an \<^verbatim>\<open>int64\<close>; \<^verbatim>\<open>version\<close> is a Go
  \<^verbatim>\<open>int\<close>, taken at 64 bits.  Both are only stored, never computed with.
\<close>

type_synonym tester = "8 word list \<Rightarrow> error option"

record rootOptions =
  version :: "64 word"

record roleOptions =
  expectedLength :: "64 word"
  tests :: "tester list"

record repoOptions =
  rootOptions :: rootOptions
  roleOptions :: roleOptions

type_synonym repoOption = "repoOptions \<Rightarrow> repoOptions"

definition withRootVersion :: "64 word \<Rightarrow> repoOption" where
  "withRootVersion v = (\<lambda>opts. opts\<lparr>rootOptions := (rootOptions opts)\<lparr>version := v\<rparr>\<rparr>)"

definition withRoleExpectedLength :: "64 word \<Rightarrow> repoOption" where
  "withRoleExpectedLength len = (\<lambda>opts. opts\<lparr>roleOptions := (roleOptions opts)\<lparr>expectedLength := len\<rparr>\<rparr>)"

definition withRoleTest :: "tester \<Rightarrow> repoOption" where
  "withRoleTest t = (\<lambda>opts. opts\<lparr>roleOptions := (roleOptions opts)\<lparr>tests := tests (roleOptions opts) @ [t]\<rparr>\<rparr>)"

text \<open>
  A variadic parameter \<^verbatim>\<open>opts ...repoOption\<close> is applied to one options value from left
  to right, each option mutating the value left by the previous one.
\<close>

definition applyOptions :: "repoOption list \<Rightarrow> repoOptions \<Rightarrow> repoOptions" where
  "applyOptions os opts = fold (\<lambda>opt acc. opt acc) os opts"

text \<open>The two options that overwrite a scalar field, for given arguments.\<close>

definition scalarOption :: "64 word \<Rightarrow> 64 word \<Rightarrow> repoOption \<Rightarrow> bool" where
  "scalarOption v n opt \<longleftrightarrow> opt = withRootVersion v \<or> opt = withRoleExpectedLength n"

section \<open>Role names and role types\<close>

text \<open>\<^verbatim>\<open>role\<close> is a string type.\<close>

type_synonym role = string

text \<open>
  Modelled from the spec: the constants \<^verbatim>\<open>roleRoot\<close>, \<^verbatim>\<open>roleTargets\<close>,
  \<^verbatim>\<open>roleTimestamp\<close> and \<^verbatim>\<open>roleSnapshot\<close>, declared outside \<^verbatim>\<open>repo.go\<close>.  They carry
  the top-level role names \<open>root\<close>, \<open>targets\<close>, \<open>timestamp\<close> and \<open>snapshot\<close> of the role
  grammar.
\<close>

definition roleRoot :: role where "roleRoot = ''root''"
definition roleTargets :: role where "roleTargets = ''targets''"
definition roleTimestamp :: role where "roleTimestamp = ''timestamp''"
definition roleSnapshot :: role where "roleSnapshot = ''snapshot''"

text \<open>
  \<^verbatim>\<open>isRoleCorrect\<close> inspects only the dynamic type of its \<^verbatim>\<open>interface{}\<close> argument.
  \<open>dyn_type\<close> lists the eight types the type switch names (a struct value or a pointer
  to it) and \<open>TOther\<close> for every other dynamic type, the nil interface included.
\<close>

datatype dyn_type =
    TRoot | TRootPtr
  | TTargets | TTargetsPtr
  | TTimestamp | TTimestampPtr
  | TSnapshot | TSnapshotPtr
  | TOther

definition isRoleCorrect :: "role \<Rightarrow> dyn_type \<Rightarrow> unit outcome" where
  "isRoleCorrect r s =
     (let hit = (case s of
                   TRoot \<Rightarrow> r = roleRoot | TRootPtr \<Rightarrow> r = roleRoot
                 | TTargets \<Rightarrow> r = roleTargets | TTargetsPtr \<Rightarrow> r = roleTargets
                 | TTimestamp \<Rightarrow> r = roleTimestamp | TTimestampPtr \<Rightarrow> r = roleTimestamp
                 | TSnapshot \<Rightarrow> r = roleSnapshot | TSnapshotPtr \<Rightarrow> r = roleSnapshot
                 | TOther \<Rightarrow> False)
      in if \<not> hit then Panics ''Programmer error! Role name and role type mismatch.''
         else Returns ())"

section \<open>The role-name pattern\<close>

text \<open>
  \<^verbatim>\<open>roleRegex\<close> is the pattern
  \<^verbatim>\<open>^root$|^[1-9]*[0-9]+\.root$|^snapshot$|^timestamp$|^targets$\<close>.
  Regular expressions are an abstract syntax of the operators the pattern uses:
  a literal character, a character range \<^verbatim>\<open>[lo-hi]\<close>, concatenation, alternation,
  \<^verbatim>\<open>*\<close> and \<^verbatim>\<open>+\<close>; \<open>Never\<close> and \<open>Empty\<close> match nothing and the empty string.
\<close>

datatype regexp =
    Never
  | Empty
  | Lit char
  | Class char char
  | Cat regexp regexp
  | Alt regexp regexp
  | Star regexp
  | Plus regexp

text \<open>A string of literal characters.\<close>

fun str :: "string \<Rightarrow> regexp" where
  "str [] = Empty"
| "str (c # cs) = Cat (Lit c) (str cs)"

text \<open>
  Matching a whole string, by derivatives: \<open>deriv c r\<close> matches what is left of a
  string matched by \<open>r\<close> after its first character \<open>c\<close>.
\<close>

fun nullable :: "regexp \<Rightarrow> bool" where
  "nullable Never = False"
| "nullable Empty = True"
| "nullable (Lit c) = False"
| "nullable (Class lo hi) = False"
| "nullable (Cat r s) = (nullable r \<and> nullable s)"
| "nullable (Alt r s) = (nullable r \<or> nullable s)"
| "nullable (Star r) = True"
| "nullable (Plus r) = nullable r"

fun deriv :: "char \<Rightarrow> regexp \<Rightarrow> regexp" where
  "deriv c Never = Never"
| "deriv c Empty = Never"
| "deriv c (Lit d) = (if c = d then Empty else Never)"
| "deriv c (Class lo hi) = (if lo \<le> c \<and> c \<le> hi then Empty else Never)"
| "deriv c (Cat r s) =
     (if nullable r then Alt (Cat (deriv c r) s) (deriv c s) else Cat (deriv c r) s)"
| "deriv c (Alt r s) = Alt (deriv c r) (deriv c s)"
| "deriv c (Star r) = Cat (deriv c r) (Star r)"
| "deriv c (Plus r) = Cat (deriv c r) (Star r)"

definition matches :: "regexp \<Rightarrow> string \<Rightarrow> bool" where
  "matches r s = nullable (fold deriv s r)"

definition MatchString :: "regexp list \<Rightarrow> string \<Rightarrow> bool" where
  "MatchString alts s = list_ex (\<lambda>r. matches r s) alts"

text \<open>
  Every alternative of \<^verbatim>\<open>roleRegex\<close> begins with \<^verbatim>\<open>^\<close> and ends with \<^verbatim>\<open>$\<close>, which
  in Go's \<^verbatim>\<open>regexp\<close> (no multi-line flag) match only at the beginning and at the end
  of the text.  So \<^verbatim>\<open>MatchString\<close>, which looks for a match anywhere in the string,
  finds one exactly when one alternative matches the whole string.  The pattern is the
  list of its alternatives without their anchors.
\<close>

definition roleRegex :: "regexp list" where
  "roleRegex =
     [str ''root'',
      Cat (Star (Class CHR ''1'' CHR ''9'')) (Cat (Plus (Class CHR ''0'' CHR ''9'')) (str ''.root'')),
      str ''snapshot'',
      str ''timestamp'',
      str ''targets'']"

definition validateRole :: "role \<Rightarrow> error option" where
  "validateRole r =
     (if \<not> MatchString roleRegex r then Some (Errorf ''%q is not a valid role'' [r]) else None)"

text \<open>The strings a regular expression matches, as a set, and the decimal digits.\<close>

inductive_set star :: "string set \<Rightarrow> string set" for A :: "string set" where
  star_Nil: "[] \<in> star A"
| star_app: "u \<in> A \<Longrightarrow> v \<in> star A \<Longrightarrow> u @ v \<in> star A"

fun lang :: "regexp \<Rightarrow> string set" where
  "lang Never = {}"
| "lang Empty = {[]}"
| "lang (Lit c) = {[c]}"
| "lang (Class lo hi) = {[c] | c. lo \<le> c \<and> c \<le> hi}"
| "lang (Cat r s) = {u @ v | u v. u \<in> lang r \<and> v \<in> lang s}"
| "lang (Alt r s) = lang r \<union> lang s"
| "lang (Star r) = star (lang r)"
| "lang (Plus r) = {u @ v | u v. u \<in> lang r \<and> v \<in> star (lang r)}"

definition digit :: "char \<Rightarrow> bool" where
  "digit c \<longleftrightarrow> CHR ''0'' \<le> c \<and> c \<le> CHR ''9''"

text \<open>
  The grammar of the specification, written from its words: a positive decimal integer
  is a non-empty string of decimal digits that are not all zero, and a versioned root is
  such an integer followed by \<open>.root\<close>.
\<close>

definition spec_positive_int :: "string \<Rightarrow> bool" where
  "spec_positive_int ds \<longleftrightarrow>
     ds \<noteq> [] \<and> list_all (\<lambda>c. c \<in> set ''0123456789'') ds \<and> \<not> list_all (\<lambda>c. c = CHR ''0'') ds"

definition spec_versioned_root :: "role \<Rightarrow> bool" where
  "spec_versioned_root r \<longleftrightarrow>
     drop (length r - 5) r = ''.root'' \<and> spec_positive_int (take (length r - 5) r)"

definition spec_role_grammar :: "role \<Rightarrow> bool" where
  "spec_role_grammar r \<longleftrightarrow>
     r = ''root'' \<or> spec_versioned_root r \<or> r = ''snapshot'' \<or> r = ''timestamp'' \<or> r = ''targets''"

section \<open>Local repository handle\<close>

text \<open>
  \<^verbatim>\<open>os.Stat\<close> returns a pair: a \<^verbatim>\<open>FileInfo\<close> with a nil error, or a nil
  \<^verbatim>\<open>FileInfo\<close> with an error.  Of \<^verbatim>\<open>FileInfo\<close> only \<^verbatim>\<open>IsDir()\<close> is used.
  \<^verbatim>\<open>os.IsNotExist\<close> holds for the does-not-exist error only, and not for nil.
  \<^verbatim>\<open>validatePath\<close> and \<^verbatim>\<open>newLocalRepo\<close> take the stat function of the file system
  they run on as a parameter; what \<^verbatim>\<open>os.Stat\<close> answers for a path is an input, and
  no file system is modelled.  Calling \<^verbatim>\<open>IsDir\<close> on the nil \<^verbatim>\<open>FileInfo\<close> panics.
\<close>

record FileInfo =
  IsDir :: bool

record localRepo =
  repoPath :: string

definition baseDir :: "localRepo \<Rightarrow> string" where
  "baseDir r = repoPath r"

definition os_IsNotExist :: "errno option \<Rightarrow> bool" where
  "os_IsNotExist err = (err = Some ENOENT)"

type_synonym stat = "string \<Rightarrow> FileInfo option \<times> errno option"

definition validatePath :: "stat \<Rightarrow> string \<Rightarrow> error option outcome" where
  "validatePath os_Stat path =
     (case os_Stat path of (fi, err) \<Rightarrow>
        if os_IsNotExist err
        then Returns (Some (Wrap (OsError ENOENT path) ''tuf repo path validation failed''))
        else (case fi of
                None \<Rightarrow> Panics ''runtime error: invalid memory address or nil pointer dereference''
              | Some info \<Rightarrow>
                  if \<not> IsDir info
                  then Returns (Some (Errorf ''tuf repo path %q must be a directory'' [path]))
                  else Returns None))"

definition newLocalRepo :: "stat \<Rightarrow> string \<Rightarrow> (error + localRepo) outcome" where
  "newLocalRepo os_Stat path =
     (case validatePath os_Stat path of
        Panics msg \<Rightarrow> Panics msg
      | Returns (Some err) \<Rightarrow> Returns (Inl (Wrap err ''new tuf repo''))
      | Returns None \<Rightarrow> Returns (Inr \<lparr>repoPath = path\<rparr>))"

section \<open>Delegated targets\<close>

text \<open>
  \<^verbatim>\<open>maxDelegationCount\<close> is declared in \<^verbatim>\<open>repo.go\<close>; no function of the file reads it.
\<close>

definition maxDelegationCount :: nat where
  "maxDelegationCount = 50"

text \<open>
  Of a \<^verbatim>\<open>Targets\<close> value the traversal reads \<^verbatim>\<open>Signed.Targets\<close>, a Go map from target
  path to file integrity metadata, and the names of \<^verbatim>\<open>Signed.Delegations.Roles\<close> in
  their listed order.  The type of the metadata is declared outside \<^verbatim>\<open>repo.go\<close> and is
  the type parameter \<open>'f\<close>.  \<^verbatim>\<open>RootTarget\<close> embeds the top-level \<^verbatim>\<open>*Targets\<close> and holds the
  maps \<^verbatim>\<open>paths\<close> and \<^verbatim>\<open>targetLookup\<close>.
\<close>

record 'f Targets =
  signed_targets :: "string \<rightharpoonup> 'f"
  delegation_names :: "string list"

record 'f RootTarget =
  Targets :: "'f Targets"
  paths :: "string \<rightharpoonup> 'f"
  targetLookup :: "string \<rightharpoonup> 'f Targets"

text \<open>
  Modelled from the spec: the method \<^verbatim>\<open>RootTarget.append\<close>, defined outside
  \<^verbatim>\<open>repo.go\<close>.  It records a visited role in the role lookup under its name and
  records the role's entries in the path-ownership map first-write-wins: a path already
  claimed by a previously visited role keeps that claim.
\<close>

definition append_role :: "'f RootTarget \<Rightarrow> string \<Rightarrow> 'f Targets \<Rightarrow> 'f RootTarget" where
  "append_role root roleName targ =
     root\<lparr>paths := signed_targets targ ++ paths root,
          targetLookup := (targetLookup root)(roleName \<mapsto> targ)\<rparr>"

text \<open>
  \<^verbatim>\<open>roleFetcher\<close> is an interface with the method \<^verbatim>\<open>fetch(path string) (*Targets, error)\<close>.
  A fetcher may keep state between calls, so it is a function from its state and the
  role name to the returned pair and its next state.  The pair is the Go pair: a
  \<^verbatim>\<open>*Targets\<close>, nil being \<open>None\<close>, and an \<^verbatim>\<open>error\<close>, nil being \<open>None\<close>.
  The traversal threads the fetcher's state and the \<^verbatim>\<open>RootTarget\<close> behind the pointer
  \<^verbatim>\<open>root\<close>.
\<close>

type_synonym ('s, 'f) roleFetcher = "'s \<Rightarrow> string \<Rightarrow> ('f Targets option \<times> error option) \<times> 's"

type_synonym ('s, 'f) walk = "'s \<times> 'f RootTarget"

text \<open>
  The loop of \<^verbatim>\<open>getDelegatedTarget\<close> over \<^verbatim>\<open>target.Signed.Delegations.Roles\<close>: the
  recursive call is a parameter.  \<^verbatim>\<open>errTargetSeen\<close> continues with the next role, any
  other error is returned.
\<close>

fun getDelegatedTarget_loop ::
  "(('s, 'f) walk \<Rightarrow> string \<Rightarrow> (error option outcome \<times> ('s, 'f) walk) option) \<Rightarrow>
   ('s, 'f) walk \<Rightarrow> string list \<Rightarrow> (error option outcome \<times> ('s, 'f) walk) option" where
  "getDelegatedTarget_loop recurse st [] = Some (Returns None, st)"
| "getDelegatedTarget_loop recurse st (name # names) =
     (case recurse st name of
        None \<Rightarrow> None
      | Some (Panics msg, st') \<Rightarrow> Some (Panics msg, st')
      | Some (Returns err, st') \<Rightarrow>
          if err = Some ErrTargetSeen then getDelegatedTarget_loop recurse st' names
          else if err \<noteq> None then Some (Returns err, st')
          else getDelegatedTarget_loop recurse st' names)"

text \<open>
  \<^verbatim>\<open>getDelegatedTarget\<close> recurses as deep as the delegation chain the fetcher hands
  out, which may be without end; the first argument bounds the depth of recursion, and
  \<open>None\<close> says the bound was reached.  A nil \<^verbatim>\<open>*Targets\<close> returned with a nil error
  is dereferenced by \<^verbatim>\<open>target.Signed\<close>, which panics.
\<close>

fun getDelegatedTarget ::
  "nat \<Rightarrow> ('s, 'f) roleFetcher \<Rightarrow> ('s, 'f) walk \<Rightarrow> string \<Rightarrow>
   (error option outcome \<times> ('s, 'f) walk) option" where
  "getDelegatedTarget 0 fetcher st roleName = None"
| "getDelegatedTarget (Suc fuel) fetcher (s, root) roleName =
     (case fetcher s roleName of ((target, err), s') \<Rightarrow>
        if err \<noteq> None then Some (Returns err, (s', root))
        else (case target of
                None \<Rightarrow> Some (Panics ''runtime error: invalid memory address or nil pointer dereference'', (s', root))
              | Some targ \<Rightarrow>
                  getDelegatedTarget_loop (getDelegatedTarget fuel fetcher)
                    (s', append_role root roleName targ) (delegation_names targ)))"

text \<open>
  The loop of \<^verbatim>\<open>targetTreeBuilder\<close> over the delegations of the top-level role: every
  non-nil error is returned.
\<close>

fun targetTreeBuilder_loop ::
  "(('s, 'f) walk \<Rightarrow> string \<Rightarrow> (error option outcome \<times> ('s, 'f) walk) option) \<Rightarrow>
   ('s, 'f) walk \<Rightarrow> string list \<Rightarrow> (error option outcome \<times> ('s, 'f) walk) option" where
  "targetTreeBuilder_loop call st [] = Some (Returns None, st)"
| "targetTreeBuilder_loop call st (name # names) =
     (case call st name of
        None \<Rightarrow> None
      | Some (Panics msg, st') \<Rightarrow> Some (Panics msg, st')
      | Some (Returns err, st') \<Rightarrow>
          if err \<noteq> None then Some (Returns err, st')
          else targetTreeBuilder_loop call st' names)"

text \<open>
  \<^verbatim>\<open>targetTreeBuilder\<close> returns \<^verbatim>\<open>(nil, err)\<close>, here \<open>Inl err\<close>, or \<^verbatim>\<open>(&root, nil)\<close>, here
  \<open>Inr root\<close>, together with the state the fetcher is left in.
\<close>

definition targetTreeBuilder ::
  "nat \<Rightarrow> ('s, 'f) roleFetcher \<Rightarrow> 's \<Rightarrow> ((error + 'f RootTarget) outcome \<times> 's) option" where
  "targetTreeBuilder fuel fetcher s =
     (case fetcher s roleTargets of ((target, err), s') \<Rightarrow>
        (case err of
           Some e \<Rightarrow> Some (Returns (Inl e), s')
         | None \<Rightarrow>
            (case target of
               None \<Rightarrow> Some (Panics ''runtime error: invalid memory address or nil pointer dereference'', s')
             | Some targ \<Rightarrow>
                 (case targetTreeBuilder_loop (getDelegatedTarget fuel fetcher)
                         (s', append_role \<lparr>Targets = targ, paths = Map.empty, targetLookup = Map.empty\<rparr>
                                 roleTargets targ)
                         (delegation_names targ) of
                    None \<Rightarrow> None
                  | Some (Panics msg, (s'', root)) \<Rightarrow> Some (Panics msg, s'')
                  | Some (Returns (Some e), (s'', root)) \<Rightarrow> Some (Returns (Inl e), s'')
                  | Some (Returns None, (s'', root)) \<Rightarrow> Some (Returns (Inr root), s'')))))"

text \<open>
  Modelled from the spec: a fetcher, the implementations of \<^verbatim>\<open>roleFetcher\<close> being
  outside \<^verbatim>\<open>repo.go\<close>.  It serves a fixed store of role metadata and keeps the list of
  the roles it has handed out, in order: a role handed out before is answered with the
  cycle signal \<^verbatim>\<open>errTargetSeen\<close>, a role missing from the store with an error of its
  own.
\<close>

definition seenFetcher :: "(string \<rightharpoonup> 'f Targets) \<Rightarrow> (string list, 'f) roleFetcher" where
  "seenFetcher g seen name =
     (if name \<in> set seen then ((None, Some ErrTargetSeen), seen)
      else (case g name of
              None \<Rightarrow> ((None, Some (ErrExternal name)), seen)
            | Some targ \<Rightarrow> ((Some targ, None), seen @ [name])))"

text \<open>
  The traversal in the words of the specification, as the list of roles in the order
  they are discovered: a role already visited is skipped; otherwise the role is visited
  and each of its delegations, in declared order, is traversed in full before the next
  one.  A role missing from the store is not visited.  The first argument bounds the
  depth.
\<close>

fun spec_preorder :: "nat \<Rightarrow> (string \<rightharpoonup> 'f Targets) \<Rightarrow> string list \<Rightarrow> string \<Rightarrow> string list" where
  "spec_preorder 0 g visited r = visited"
| "spec_preorder (Suc n) g visited r =
     (if r \<in> set visited then visited
      else (case g r of
              None \<Rightarrow> visited
            | Some targ \<Rightarrow>
                fold (\<lambda>d v. spec_preorder n g v d) (delegation_names targ) (visited @ [r])))"

text \<open>
  The same traversal, keeping the state also when the bound on the depth is reached: the
  first component is \<open>None\<close> then, and the state is the one reached by then.  It serves to
  speak of the fetch calls of a run whether or not it returns within the bound.
\<close>

type_synonym ('r, 'st) progress = "'r option \<times> 'st"

fun getDelegatedTarget_loop_run ::
  "(('s, 'f) walk \<Rightarrow> string \<Rightarrow> (error option outcome, ('s, 'f) walk) progress) \<Rightarrow>
   ('s, 'f) walk \<Rightarrow> string list \<Rightarrow> (error option outcome, ('s, 'f) walk) progress" where
  "getDelegatedTarget_loop_run recurse st [] = (Some (Returns None), st)"
| "getDelegatedTarget_loop_run recurse st (name # names) =
     (case recurse st name of
        (None, st') \<Rightarrow> (None, st')
      | (Some (Panics msg), st') \<Rightarrow> (Some (Panics msg), st')
      | (Some (Returns err), st') \<Rightarrow>
          if err = Some ErrTargetSeen then getDelegatedTarget_loop_run recurse st' names
          else if err \<noteq> None then (Some (Returns err), st')
          else getDelegatedTarget_loop_run recurse st' names)"

fun getDelegatedTarget_run ::
  "nat \<Rightarrow> ('s, 'f) roleFetcher \<Rightarrow> ('s, 'f) walk \<Rightarrow> string \<Rightarrow>
   (error option outcome, ('s, 'f) walk) progress" where
  "getDelegatedTarget_run 0 fetcher st roleName = (None, st)"
| "getDelegatedTarget_run (Suc fuel) fetcher (s, root) roleName =
     (case fetcher s roleName of ((target, err), s') \<Rightarrow>
        if err \<noteq> None then (Some (Returns err), (s', root))
        else (case target of
                None \<Rightarrow> (Some (Panics ''runtime error: invalid memory address or nil pointer dereference''),
                          (s', root))
              | Some targ \<Rightarrow>
                  getDelegatedTarget_loop_run (getDelegatedTarget_run fuel fetcher)
                    (s', append_role root roleName targ) (delegation_names targ)))"

fun targetTreeBuilder_loop_run ::
  "(('s, 'f) walk \<Rightarrow> string \<Rightarrow> (error option outcome, ('s, 'f) walk) progress) \<Rightarrow>
   ('s, 'f) walk \<Rightarrow> string list \<Rightarrow> (error option outcome, ('s, 'f) walk) progress" where
  "targetTreeBuilder_loop_run call st [] = (Some (Returns None), st)"
| "targetTreeBuilder_loop_run call st (name # names) =
     (case call st name of
        (None, st') \<Rightarrow> (None, st')
      | (Some (Panics msg), st') \<Rightarrow> (Some (Panics msg), st')
      | (Some (Returns err), st') \<Rightarrow>
          if err \<noteq> None then (Some (Returns err), st')
          else targetTreeBuilder_loop_run call st' names)"

definition targetTreeBuilder_run ::
  "nat \<Rightarrow> ('s, 'f) roleFetcher \<Rightarrow> 's \<Rightarrow> ((error + 'f RootTarget) outcome, 's) progress" where
  "targetTreeBuilder_run fuel fetcher s =
     (case fetcher s roleTargets of ((target, err), s') \<Rightarrow>
        (case err of
           Some e \<Rightarrow> (Some (Returns (Inl e)), s')
         | None \<Rightarrow>
            (case target of
               None \<Rightarrow> (Some (Panics ''runtime error: invalid memory address or nil pointer dereference''), s')
             | Some targ \<Rightarrow>
                 (case targetTreeBuilder_loop_run (getDelegatedTarget_run fuel fetcher)
                         (s', append_role \<lparr>Targets = targ, paths = Map.empty, targetLookup = Map.empty\<rparr>
                                 roleTargets targ)
                         (delegation_names targ) of
                    (None, (s'', root)) \<Rightarrow> (None, s'')
                  | (Some (Panics msg), (s'', root)) \<Rightarrow> (Some (Panics msg), s'')
                  | (Some (Returns (Some e)), (s'', root)) \<Rightarrow> (Some (Returns (Inl e)), s'')
                  | (Some (Returns None), (s'', root)) \<Rightarrow> (Some (Returns (Inr root)), s'')))))"

text \<open>What the traversal returns, read off a run that keeps its state.\<close>

definition returned :: "('r, 'st) progress \<Rightarrow> ('r \<times> 'st) option" where
  "returned x = (case x of (None, st) \<Rightarrow> None | (Some res, st) \<Rightarrow> Some (res, st))"

subsection \<open>The fetch calls of a run\<close>

text \<open>
  To speak about the fetch calls a run makes, a fetcher is wrapped so that its state
  also carries the list of the calls made so far, each with the pair it returned.
\<close>

type_synonym 'f fetch_result = "'f Targets option \<times> error option"

type_synonym 'f fetch_log = "(string \<times> 'f fetch_result) list"

definition logged :: "('s, 'f) roleFetcher \<Rightarrow> ('s \<times> 'f fetch_log, 'f) roleFetcher" where
  "logged fetcher = (\<lambda>(s, log) name.
     case fetcher s name of (res, s') \<Rightarrow> (res, (s', log @ [(name, res)])))"

text \<open>Removing the list of calls from the result of a run of a wrapped fetcher.\<close>

definition erase_log ::
  "'r \<times> ('s \<times> 'f fetch_log) \<times> 'f RootTarget \<Rightarrow> 'r \<times> 's \<times> 'f RootTarget" where
  "erase_log x = (case x of (res, ((s, log), root)) \<Rightarrow> (res, (s, root)))"

definition erase_tree_log :: "'r \<times> 's \<times> 'f fetch_log \<Rightarrow> 'r \<times> 's" where
  "erase_tree_log x = (case x of (res, (s, log)) \<Rightarrow> (res, s))"

text \<open>
  The successful calls of a list of calls, in order: these are the roles passed to
  \<^verbatim>\<open>RootTarget.append\<close>.  \<open>replay\<close> records a list of roles one after another.
\<close>

definition recorded1 :: "string \<times> 'f fetch_result \<Rightarrow> (string \<times> 'f Targets) list" where
  "recorded1 entry = (case entry of (name, (Some targ, None)) \<Rightarrow> [(name, targ)] | _ \<Rightarrow> [])"

definition recorded :: "'f fetch_log \<Rightarrow> (string \<times> 'f Targets) list" where
  "recorded log = concat (map recorded1 log)"

definition replay :: "(string \<times> 'f Targets) list \<Rightarrow> 'f RootTarget \<Rightarrow> 'f RootTarget" where
  "replay visits root = fold (\<lambda>(name, targ) rt. append_role rt name targ) visits root"

text \<open>
  A call is benign when it succeeded or reported \<^verbatim>\<open>errTargetSeen\<close>.  Every other call
  ends the run: with its error, or with a panic for a nil \<^verbatim>\<open>*Targets\<close> and a nil error.
  \<open>shape res calls\<close> relates what a part of the traversal returns to the calls it made.
\<close>

definition benign :: "string \<times> 'f fetch_result \<Rightarrow> bool" where
  "benign entry = (case entry of (name, (targ, err)) \<Rightarrow>
      err = Some ErrTargetSeen \<or> (err = None \<and> targ \<noteq> None))"

definition fetch_outcome :: "'f fetch_result \<Rightarrow> error option outcome option" where
  "fetch_outcome res = (case res of
      (targ, Some e) \<Rightarrow> Some (Returns (Some e))
    | (None, None) \<Rightarrow> Some (Panics ''runtime error: invalid memory address or nil pointer dereference'')
    | (Some targ, None) \<Rightarrow> None)"

definition shape :: "error option outcome \<Rightarrow> 'f fetch_log \<Rightarrow> bool" where
  "shape res ext = (case res of
      Returns None \<Rightarrow> list_all benign ext
    | _ \<Rightarrow> ext \<noteq> [] \<and> list_all benign (butlast ext) \<and> fetch_outcome (snd (last ext)) = Some res)"

definition as_error :: "(error + 'a) outcome \<Rightarrow> error option outcome" where
  "as_error res = (case res of
      Returns (Inl e) \<Rightarrow> Returns (Some e)
    | Returns (Inr x) \<Rightarrow> Returns None
    | Panics msg \<Rightarrow> Panics msg)"

text \<open>The same relation for a run that keeps its state: at the bound every call made was benign.\<close>

definition shape_run :: "error option outcome option \<Rightarrow> 'f fetch_log \<Rightarrow> bool" where
  "shape_run progress ext = (case progress of None \<Rightarrow> list_all benign ext | Some res \<Rightarrow> shape res ext)"

text \<open>The claim on a path of the first role, in a list of roles, that declares the path.\<close>

definition first_claim :: "string \<Rightarrow> (string \<times> 'f Targets) list \<Rightarrow> 'f option" where
  "first_claim P visits =
     (case find (\<lambda>(name, targ). signed_targets targ P \<noteq> None) visits of
        None \<Rightarrow> None
      | Some (name, targ) \<Rightarrow> signed_targets targ P)"

text \<open>
  The claim a role of a graph declares for a path, and the claim of the first role, in a
  list of role names, that declares the path.
\<close>

definition declared :: "(string \<rightharpoonup> 'f Targets) \<Rightarrow> string \<Rightarrow> string \<Rightarrow> 'f option" where
  "declared g r P = (case g r of None \<Rightarrow> None | Some targ \<Rightarrow> signed_targets targ P)"

definition first_declared :: "(string \<rightharpoonup> 'f Targets) \<Rightarrow> string \<Rightarrow> string list \<Rightarrow> 'f option" where
  "first_declared g P order =
     (case find (\<lambda>r. declared g r P \<noteq> None) order of
        None \<Rightarrow> None
      | Some r \<Rightarrow> declared g r P)"

text \<open>
  The roles of a finite store in the preorder of the specification, from the top-level
  role.  The bound is above the depth a traversal of the store reaches: every larger
  bound gives the same list.
\<close>

definition preorder_of :: "(string \<times> 'f Targets) list \<Rightarrow> string list" where
  "preorder_of store = spec_preorder (Suc (Suc (length store))) (map_of store) [] roleTargets"

text \<open>
  The entry that the path-ownership map of a returned tree gives for a path; \<open>None\<close> when
  no tree is returned.
\<close>

definition resolved :: "((error + 'f RootTarget) outcome \<times> 's) option \<Rightarrow> string \<Rightarrow> 'f option" where
  "resolved run P = (case run of Some (Returns (Inr rt), s) \<Rightarrow> paths rt P | _ \<Rightarrow> None)"

subsection \<open>Delegation graphs used as examples\<close>

text \<open>A role with its claims, from path to metadata (a number here), and its delegations.\<close>

definition role_of :: "(string \<times> nat) list \<Rightarrow> string list \<Rightarrow> nat Targets" where
  "role_of claims names = \<lparr>signed_targets = map_of claims, delegation_names = names\<rparr>"

text \<open>\<open>A\<close> delegates to a role \<open>C\<close> that is missing from the store.\<close>

definition broken_graph :: "string \<rightharpoonup> nat Targets" where
  "broken_graph = map_of
     [(''targets'', role_of [] [''A'', ''B'']),
      (''A'', role_of [(''/x'', 1)] [''C'']),
      (''B'', role_of [(''/y'', 2)] [])]"

text \<open>
  Sequential siblings: the top-level role delegates to \<open>targets/a\<close>, which claims \<open>/x\<close>, and
  then to \<open>targets/b\<close>, which claims \<open>/x\<close> and \<open>/y\<close>.
\<close>

definition siblings_store :: "(string \<times> nat Targets) list" where
  "siblings_store =
     [(''targets'', role_of [] [''targets/a'', ''targets/b'']),
      (''targets/a'', role_of [(''/x'', 1)] []),
      (''targets/b'', role_of [(''/x'', 2), (''/y'', 3)] [])]"

text \<open>
  A diamond: \<open>A\<close> and \<open>B\<close> both delegate to \<open>C\<close>.  All three claim \<open>/p\<close>, and \<open>B\<close> and \<open>C\<close>
  claim \<open>/q\<close>.
\<close>

definition diamond_store :: "(string \<times> nat Targets) list" where
  "diamond_store =
     [(''targets'', role_of [] [''A'', ''B'']),
      (''A'', role_of [(''/p'', 1)] [''C'']),
      (''B'', role_of [(''/p'', 2), (''/q'', 4)] [''C'']),
      (''C'', role_of [(''/p'', 3), (''/q'', 5)] [])]"

text \<open>
  The top-level role delegates to \<open>A\<close> and to \<open>B\<close>, and \<open>A\<close> delegates to \<open>B\<close>: the second
  delegation of the top-level role names a role already visited.
\<close>

definition top_revisit_graph :: "string \<rightharpoonup> nat Targets" where
  "top_revisit_graph = map_of
     [(''targets'', role_of [] [''A'', ''B'']),
      (''A'', role_of [(''/x'', 1)] [''B'']),
      (''B'', role_of [(''/y'', 2)] [])]"

text \<open>The top-level role delegates to 51 roles that delegate no further.\<close>

definition wide_names :: "string list" where
  "wide_names =
     [''d01'', ''d02'', ''d03'', ''d04'', ''d05'', ''d06'', ''d07'', ''d08'', ''d09'',
      ''d10'', ''d11'', ''d12'', ''d13'', ''d14'', ''d15'', ''d16'', ''d17'', ''d18'',
      ''d19'', ''d20'', ''d21'', ''d22'', ''d23'', ''d24'', ''d25'', ''d26'', ''d27'',
      ''d28'', ''d29'', ''d30'', ''d31'', ''d32'', ''d33'', ''d34'', ''d35'', ''d36'',
      ''d37'', ''d38'', ''d39'', ''d40'', ''d41'', ''d42'', ''d43'', ''d44'', ''d45'',
      ''d46'', ''d47'', ''d48'', ''d49'', ''d50'', ''d51'']"

definition wide_graph :: "string \<rightharpoonup> nat Targets" where
  "wide_graph = map_of ((''targets'', role_of [] wide_names) # map (\<lambda>name. (name, role_of [] [])) wide_names)"

text \<open>A cycle: the top-level role delegates to \<open>A\<close>, \<open>A\<close> to \<open>B\<close>, and \<open>B\<close> back to \<open>A\<close>.\<close>

definition cycle_store :: "(string \<times> nat Targets) list" where
  "cycle_store =
     [(''targets'', role_of [] [''A'']),
      (''A'', role_of [(''/x'', 1)] [''B'']),
      (''B'', role_of [(''/y'', 2)] [''A''])]"

section \<open>Fetch options: order of application\<close>

lemma applyOptions_Nil: "applyOptions [] opts = opts"
  by (simp add: applyOptions_def)

lemma applyOptions_Cons: "applyOptions (opt # os) opts = applyOptions os (opt opts)"
  by (simp add: applyOptions_def)

lemma applyOptions_tests: "applyOptions (map withRoleTest ts) opts =
    opts\<lparr>roleOptions := (roleOptions opts)\<lparr>tests := tests (roleOptions opts) @ ts\<rparr>\<rparr>"
  by (induction ts arbitrary: opts) (simp_all add: applyOptions_Nil applyOptions_Cons withRoleTest_def)

lemma shuffle_tests:
  "os \<in> shuffles xs (map withRoleTest ts) \<Longrightarrow> \<forall>x\<in>set xs. scalarOption v n x \<Longrightarrow>
   tests (roleOptions (applyOptions os opts)) = tests (roleOptions opts) @ ts"
proof (induction os arbitrary: xs ts opts)
  case Nil
  then show ?case by (simp add: applyOptions_Nil)
next
  case (Cons z zs)
  from Cons.prems(1) consider
      (scalar) "xs \<noteq> []" "hd xs = z" "zs \<in> shuffles (tl xs) (map withRoleTest ts)"
    | (test) "ts \<noteq> []" "withRoleTest (hd ts) = z" "zs \<in> shuffles xs (map withRoleTest (tl ts))"
    by (auto simp: Cons_in_shuffles_iff hd_map map_tl)
  then show ?case
  proof cases
    case scalar
    from scalar(1,2) Cons.prems(2) have z: "scalarOption v n z"
      by (cases xs) auto
    from scalar(1) Cons.prems(2) have "\<forall>x\<in>set (tl xs). scalarOption v n x"
      by (cases xs) auto
    from Cons.IH [OF scalar(3) this]
    have "tests (roleOptions (applyOptions zs (z opts))) = tests (roleOptions (z opts)) @ ts" .
    moreover from z have "tests (roleOptions (z opts)) = tests (roleOptions opts)"
      by (auto simp: scalarOption_def withRootVersion_def withRoleExpectedLength_def)
    ultimately show ?thesis by (simp add: applyOptions_Cons)
  next
    case test
    from Cons.IH [OF test(3) Cons.prems(2)]
    have "tests (roleOptions (applyOptions zs (z opts))) = tests (roleOptions (z opts)) @ tl ts" .
    moreover from test(2) have "tests (roleOptions (z opts)) = tests (roleOptions opts) @ [hd ts]"
      by (auto simp: withRoleTest_def)
    ultimately show ?thesis using test(1) by (simp add: applyOptions_Cons)
  qed
qed

lemma scalars_ignore_tests:
  "\<forall>x\<in>set xs. scalarOption v n x \<Longrightarrow>
   rootOptions opts = rootOptions opts' \<Longrightarrow>
   expectedLength (roleOptions opts) = expectedLength (roleOptions opts') \<Longrightarrow>
   rootOptions (applyOptions xs opts) = rootOptions (applyOptions xs opts') \<and>
   expectedLength (roleOptions (applyOptions xs opts)) = expectedLength (roleOptions (applyOptions xs opts'))"
proof (induction xs arbitrary: opts opts')
  case Nil
  then show ?case by (simp add: applyOptions_Nil)
next
  case (Cons x xs)
  from Cons.prems(1) have x: "scalarOption v n x" and xs: "\<forall>y\<in>set xs. scalarOption v n y"
    by simp_all
  from x Cons.prems(2,3) have "rootOptions (x opts) = rootOptions (x opts')"
    and "expectedLength (roleOptions (x opts)) = expectedLength (roleOptions (x opts'))"
    by (auto simp: scalarOption_def withRootVersion_def withRoleExpectedLength_def)
  from Cons.IH [OF xs this] show ?case
    by (simp add: applyOptions_Cons)
qed

lemma shuffle_scalars:
  "os \<in> shuffles xs (map withRoleTest ts) \<Longrightarrow> \<forall>x\<in>set xs. scalarOption v n x \<Longrightarrow>
   rootOptions (applyOptions os opts) = rootOptions (applyOptions xs opts) \<and>
   expectedLength (roleOptions (applyOptions os opts)) = expectedLength (roleOptions (applyOptions xs opts))"
proof (induction os arbitrary: xs ts opts)
  case Nil
  then show ?case by (simp add: applyOptions_Nil)
next
  case (Cons z zs)
  from Cons.prems(1) consider
      (scalar) "xs \<noteq> []" "hd xs = z" "zs \<in> shuffles (tl xs) (map withRoleTest ts)"
    | (test) "ts \<noteq> []" "withRoleTest (hd ts) = z" "zs \<in> shuffles xs (map withRoleTest (tl ts))"
    by (auto simp: Cons_in_shuffles_iff hd_map map_tl)
  then show ?case
  proof cases
    case scalar
    from scalar(1,2) have "xs = z # tl xs" by (cases xs) auto
    then have "applyOptions xs opts = applyOptions (tl xs) (z opts)"
      by (metis applyOptions_Cons)
    moreover from scalar(1) Cons.prems(2) have "\<forall>x\<in>set (tl xs). scalarOption v n x"
      by (cases xs) auto
    ultimately show ?thesis
      using Cons.IH [OF scalar(3), of "z opts"] by (simp add: applyOptions_Cons)
  next
    case test
    have keep: "rootOptions (applyOptions xs (z opts)) = rootOptions (applyOptions xs opts) \<and>
      expectedLength (roleOptions (applyOptions xs (z opts))) = expectedLength (roleOptions (applyOptions xs opts))"
    proof (rule scalars_ignore_tests [OF Cons.prems(2)])
      from test(2) show "rootOptions (z opts) = rootOptions opts"
        by (auto simp: withRoleTest_def)
      from test(2) show "expectedLength (roleOptions (z opts)) = expectedLength (roleOptions opts)"
        by (auto simp: withRoleTest_def)
    qed
    with Cons.IH [OF test(3) Cons.prems(2), of "z opts"] show ?thesis
      by (simp add: applyOptions_Cons)
  qed
qed

text \<open>
  C9: Fetch-option order independence.  One \<^verbatim>\<open>withRootVersion(v)\<close>, one
  \<^verbatim>\<open>withRoleExpectedLength(n)\<close> and the options \<^verbatim>\<open>withRoleTest(t)\<close> for the testers
  \<open>ts\<close>, applied in any interleaving that keeps the testers in the order of \<open>ts\<close> (the two
  scalar options in either order), give the same options value: version \<open>v\<close>, expected
  length \<open>n\<close>, and the testers \<open>ts\<close> appended in order to those already present.
  \<^verbatim>\<open>withRootVersion\<close> and \<^verbatim>\<open>withRoleExpectedLength\<close> commute with each other and
  with \<^verbatim>\<open>withRoleTest\<close>, and \<^verbatim>\<open>withRoleTest\<close> accumulates testers in the order applied.
\<close>

theorem options_order_independent:
  "(os \<in> shuffles [withRootVersion v, withRoleExpectedLength n] (map withRoleTest ts) \<union>
         shuffles [withRoleExpectedLength n, withRootVersion v] (map withRoleTest ts) \<longrightarrow>
      applyOptions os opts =
        \<lparr>rootOptions = \<lparr>version = v\<rparr>,
         roleOptions = \<lparr>expectedLength = n, tests = tests (roleOptions opts) @ ts\<rparr>\<rparr>)
   \<and> withRootVersion v (withRoleExpectedLength n opts) = withRoleExpectedLength n (withRootVersion v opts)
   \<and> withRootVersion v (withRoleTest t opts) = withRoleTest t (withRootVersion v opts)
   \<and> withRoleExpectedLength n (withRoleTest t opts) = withRoleTest t (withRoleExpectedLength n opts)
   \<and> tests (roleOptions (applyOptions (map withRoleTest ts) opts)) = tests (roleOptions opts) @ ts"
proof (intro conjI impI)
  assume os: "os \<in> shuffles [withRootVersion v, withRoleExpectedLength n] (map withRoleTest ts) \<union>
         shuffles [withRoleExpectedLength n, withRootVersion v] (map withRoleTest ts)"
  then obtain xs where xs: "os \<in> shuffles xs (map withRoleTest ts)"
    and xs_def: "xs = [withRootVersion v, withRoleExpectedLength n] \<or>
                 xs = [withRoleExpectedLength n, withRootVersion v]"
    by blast
  from xs_def have sc: "\<forall>x\<in>set xs. scalarOption v n x"
    by (auto simp: scalarOption_def)
  from xs_def have
    "rootOptions (applyOptions xs opts) = \<lparr>version = v\<rparr> \<and>
     expectedLength (roleOptions (applyOptions xs opts)) = n"
    by (auto simp: applyOptions_Nil applyOptions_Cons withRootVersion_def withRoleExpectedLength_def)
  with shuffle_scalars [OF xs sc, of opts] shuffle_tests [OF xs sc, of opts]
  have "rootOptions (applyOptions os opts) = \<lparr>version = v\<rparr>"
    and "expectedLength (roleOptions (applyOptions os opts)) = n"
    and "tests (roleOptions (applyOptions os opts)) = tests (roleOptions opts) @ ts"
    by simp_all
  then show "applyOptions os opts =
        \<lparr>rootOptions = \<lparr>version = v\<rparr>,
         roleOptions = \<lparr>expectedLength = n, tests = tests (roleOptions opts) @ ts\<rparr>\<rparr>"
    by (cases "applyOptions os opts", cases "roleOptions (applyOptions os opts)") auto
qed (simp_all add: withRootVersion_def withRoleExpectedLength_def withRoleTest_def applyOptions_tests)

theorem options_order_independent_witness:
  "[withRoleTest (\<lambda>bs. None), withRoleExpectedLength 1024,
    withRoleTest (\<lambda>bs. if bs = [] then Some (ErrExternal ''empty'') else None), withRootVersion 3]
     \<in> shuffles [withRootVersion 3, withRoleExpectedLength 1024]
          (map withRoleTest [\<lambda>bs. None, \<lambda>bs. if bs = [] then Some (ErrExternal ''empty'') else None]) \<union>
        shuffles [withRoleExpectedLength 1024, withRootVersion 3]
          (map withRoleTest [\<lambda>bs. None, \<lambda>bs. if bs = [] then Some (ErrExternal ''empty'') else None])
   \<and> applyOptions
        [withRoleTest (\<lambda>bs. None), withRoleExpectedLength 1024,
         withRoleTest (\<lambda>bs. if bs = [] then Some (ErrExternal ''empty'') else None), withRootVersion 3]
        \<lparr>rootOptions = \<lparr>version = 0\<rparr>, roleOptions = \<lparr>expectedLength = 0, tests = []\<rparr>\<rparr>
     = \<lparr>rootOptions = \<lparr>version = 3\<rparr>,
        roleOptions = \<lparr>expectedLength = 1024,
          tests = [\<lambda>bs. None, \<lambda>bs. if bs = [] then Some (ErrExternal ''empty'') else None]\<rparr>\<rparr>"
proof -
  have mem: "[withRoleTest (\<lambda>bs. None), withRoleExpectedLength 1024,
    withRoleTest (\<lambda>bs. if bs = [] then Some (ErrExternal ''empty'') else None), withRootVersion 3]
     \<in> shuffles [withRootVersion 3, withRoleExpectedLength 1024]
          (map withRoleTest [\<lambda>bs. None, \<lambda>bs. if bs = [] then Some (ErrExternal ''empty'') else None]) \<union>
        shuffles [withRoleExpectedLength 1024, withRootVersion 3]
          (map withRoleTest [\<lambda>bs. None, \<lambda>bs. if bs = [] then Some (ErrExternal ''empty'') else None])"
    by (simp add: Cons_in_shuffles_iff)
  from options_order_independent [THEN conjunct1, rule_format, OF mem,
      of "\<lparr>rootOptions = \<lparr>version = 0\<rparr>, roleOptions = \<lparr>expectedLength = 0, tests = []\<rparr>\<rparr>"] mem
  show ?thesis by simp
qed

section \<open>Role and type consistency\<close>

text \<open>
  C7 (as stated, refuted): a versioned root name with a \<^verbatim>\<open>Root\<close> value, and a delegated
  role name with a \<^verbatim>\<open>Targets\<close> value, are combinations the claim expects to pass;
  \<^verbatim>\<open>isRoleCorrect\<close> panics on both.
\<close>

theorem isRoleCorrect_versioned_root_panics:
  "spec_versioned_root ''1.root''
   \<and> isRoleCorrect ''1.root'' TRoot = Panics ''Programmer error! Role name and role type mismatch.''
   \<and> isRoleCorrect ''targets/releases'' TTargets = Panics ''Programmer error! Role name and role type mismatch.''"
  by (simp add: isRoleCorrect_def roleRoot_def roleTargets_def spec_versioned_root_def spec_positive_int_def)

text \<open>
  C7 (amended): \<^verbatim>\<open>isRoleCorrect\<close> returns normally exactly when the value is a
  \<^verbatim>\<open>Root\<close> (struct or pointer) and the role name equals \<open>root\<close>, or a \<^verbatim>\<open>Targets\<close> and
  the name equals \<open>targets\<close>, or a \<^verbatim>\<open>Timestamp\<close> and the name equals \<open>timestamp\<close>, or a
  \<^verbatim>\<open>Snapshot\<close> and the name equals \<open>snapshot\<close>; in every other combination, a value of
  any other type included, it panics.
\<close>

theorem isRoleCorrect_exact:
  "isRoleCorrect r s =
     (if (s \<in> {TRoot, TRootPtr} \<and> r = ''root'') \<or> (s \<in> {TTargets, TTargetsPtr} \<and> r = ''targets'')
         \<or> (s \<in> {TTimestamp, TTimestampPtr} \<and> r = ''timestamp'')
         \<or> (s \<in> {TSnapshot, TSnapshotPtr} \<and> r = ''snapshot'')
      then Returns ()
      else Panics ''Programmer error! Role name and role type mismatch.'')"
  by (cases s)
     (simp_all add: isRoleCorrect_def roleRoot_def roleTargets_def roleTimestamp_def roleSnapshot_def)

section \<open>Validation of role names\<close>

lemma nullable_lang: "nullable r \<longleftrightarrow> [] \<in> lang r"
  by (induction r) (auto intro: star.intros)

lemma star_Cons_split:
  "w \<in> star A \<Longrightarrow> w = c # x \<Longrightarrow> \<exists>u v. x = u @ v \<and> c # u \<in> A \<and> v \<in> star A"
proof (induction arbitrary: x rule: star.induct)
  case star_Nil
  then show ?case by simp
next
  case (star_app u v)
  show ?case
  proof (cases u)
    case Nil
    with star_app show ?thesis by simp
  next
    case (Cons d u')
    with star_app.prems have "d = c" and "x = u' @ v" by simp_all
    with Cons star_app.hyps show ?thesis by blast
  qed
qed

lemma star_Cons_iff:
  "c # x \<in> star A \<longleftrightarrow> (\<exists>u v. x = u @ v \<and> c # u \<in> A \<and> v \<in> star A)"
proof
  assume "c # x \<in> star A"
  then show "\<exists>u v. x = u @ v \<and> c # u \<in> A \<and> v \<in> star A"
    by (rule star_Cons_split) simp
next
  assume "\<exists>u v. x = u @ v \<and> c # u \<in> A \<and> v \<in> star A"
  then obtain u v where "x = u @ v" "c # u \<in> A" "v \<in> star A" by blast
  then show "c # x \<in> star A"
    using star_app [of "c # u" A v] by simp
qed

lemma lang_deriv: "w \<in> lang (deriv c r) \<longleftrightarrow> c # w \<in> lang r"
proof (induction r arbitrary: w)
  case (Cat r s)
  then show ?case
    by (auto simp: nullable_lang Cons_eq_append_conv)
next
  case (Star r)
  then show ?case by (auto simp: star_Cons_iff)
next
  case (Plus r)
  show ?case
  proof
    assume "w \<in> lang (deriv c (Plus r))"
    then obtain u v where "w = u @ v" "u \<in> lang (deriv c r)" "v \<in> star (lang r)"
      by auto
    with Plus.IH have "c # u \<in> lang r" by simp
    with \<open>w = u @ v\<close> \<open>v \<in> star (lang r)\<close> show "c # w \<in> lang (Plus r)"
      by (auto intro: exI [of _ "c # u"])
  next
    assume "c # w \<in> lang (Plus r)"
    then obtain u v where uv: "c # w = u @ v" "u \<in> lang r" "v \<in> star (lang r)"
      by auto
    show "w \<in> lang (deriv c (Plus r))"
    proof (cases u)
      case Nil
      with uv have "c # w \<in> star (lang r)" by simp
      then obtain u' v' where "w = u' @ v'" "c # u' \<in> lang r" "v' \<in> star (lang r)"
        by (auto simp: star_Cons_iff)
      with Plus.IH show ?thesis by auto
    next
      case (Cons d u')
      with uv have "d = c" "w = u' @ v" by simp_all
      with Cons uv Plus.IH show ?thesis by auto
    qed
  qed
qed auto

lemma matches_lang: "matches r w \<longleftrightarrow> w \<in> lang r"
  unfolding matches_def
  by (induction w arbitrary: r) (simp_all add: nullable_lang lang_deriv)

lemma lang_str: "lang (str s) = {s}"
  by (induction s) auto

lemma star_singletons: "star {[c] | c. P c} = {w. \<forall>c\<in>set w. P c}"
proof (intro set_eqI iffI)
  fix w assume "w \<in> star {[c] | c. P c}"
  then show "w \<in> {w. \<forall>c\<in>set w. P c}"
    by (induction rule: star.induct) auto
next
  fix w assume "w \<in> {w. \<forall>c\<in>set w. P c}"
  then have "\<forall>c\<in>set w. P c" by simp
  then show "w \<in> star {[c] | c. P c}"
  proof (induction w)
    case Nil
    show ?case by (rule star_Nil)
  next
    case (Cons a w)
    then have "[a] \<in> {[c] | c. P c}" and "w \<in> star {[c] | c. P c}" by auto
    from star_app [OF this] show ?case by simp
  qed
qed

lemma lang_versioned:
  "lang (Cat (Star (Class CHR ''1'' CHR ''9'')) (Cat (Plus (Class CHR ''0'' CHR ''9'')) (str ''.root'')))
     = {ds @ ''.root'' | ds. ds \<noteq> [] \<and> (\<forall>c\<in>set ds. digit c)}" (is "?L = ?R")
proof (intro set_eqI iffI)
  fix w assume "w \<in> ?L"
  then obtain u d v where w: "w = u @ ([d] @ v) @ ''.root''"
    and u: "u \<in> star {[c] | c. CHR ''1'' \<le> c \<and> c \<le> CHR ''9''}"
    and d: "CHR ''0'' \<le> d \<and> d \<le> CHR ''9''"
    and v: "v \<in> star {[c] | c. CHR ''0'' \<le> c \<and> c \<le> CHR ''9''}"
    by (auto simp: lang_str simp del: str.simps)
  from u have "\<forall>c\<in>set u. CHR ''1'' \<le> c \<and> c \<le> CHR ''9''"
    by (simp add: star_singletons)
  then have "\<forall>c\<in>set u. digit c"
    by (auto simp: digit_def intro: order_trans [of "CHR ''0''" "CHR ''1''"])
  moreover from v have "\<forall>c\<in>set v. digit c"
    by (simp add: star_singletons digit_def)
  ultimately have "\<forall>c\<in>set (u @ [d] @ v). digit c" using d by (auto simp: digit_def)
  with w show "w \<in> ?R" by (intro CollectI exI [of _ "u @ [d] @ v"]) simp
next
  fix w assume "w \<in> ?R"
  then obtain ds where w: "w = ds @ ''.root''" and ne: "ds \<noteq> []" and dg: "\<forall>c\<in>set ds. digit c"
    by blast
  from ne obtain d v where ds: "ds = d # v" by (cases ds) auto
  with dg have "v \<in> star {[c] | c. CHR ''0'' \<le> c \<and> c \<le> CHR ''9''}"
    by (simp add: star_singletons digit_def)
  moreover from ds dg have "CHR ''0'' \<le> d \<and> d \<le> CHR ''9''" by (simp add: digit_def)
  ultimately have "[d] @ v \<in> lang (Plus (Class CHR ''0'' CHR ''9''))"
    unfolding lang.simps by blast
  then have "d # v \<in> lang (Plus (Class CHR ''0'' CHR ''9''))"
    by simp
  moreover have "[] \<in> lang (Star (Class CHR ''1'' CHR ''9''))"
    by (simp add: star_Nil)
  moreover have "''.root'' \<in> lang (str ''.root'')" by (simp only: lang_str) simp
  ultimately have "[] @ (d # v) @ ''.root'' \<in> ?L"
    unfolding lang.simps(5) by blast
  with w ds show "w \<in> ?L" by simp
qed

lemma validateRole_accepts:
  "validateRole r = None \<longleftrightarrow>
     r = ''root'' \<or> (\<exists>ds. ds \<noteq> [] \<and> (\<forall>c\<in>set ds. digit c) \<and> r = ds @ ''.root'')
     \<or> r = ''snapshot'' \<or> r = ''timestamp'' \<or> r = ''targets''"
proof -
  have "MatchString roleRegex r \<longleftrightarrow>
     r \<in> lang (str ''root'') \<or>
     r \<in> lang (Cat (Star (Class CHR ''1'' CHR ''9'')) (Cat (Plus (Class CHR ''0'' CHR ''9'')) (str ''.root''))) \<or>
     r \<in> lang (str ''snapshot'') \<or> r \<in> lang (str ''timestamp'') \<or> r \<in> lang (str ''targets'')"
    by (simp add: MatchString_def roleRegex_def matches_lang del: lang.simps str.simps)
  then show ?thesis
    unfolding validateRole_def lang_versioned lang_str by auto
qed

lemma validateRole_rejects:
  "validateRole r \<noteq> None \<Longrightarrow> validateRole r = Some (Errorf ''%q is not a valid role'' [r])"
  by (simp add: validateRole_def split: if_splits)

text \<open>
  C6: \<^verbatim>\<open>validateRole\<close> is claimed to succeed exactly on \<open>root\<close>,
  \<open><positive-int>.root\<close>, \<open>snapshot\<close>, \<open>timestamp\<close> and \<open>targets\<close>.  On \<open>0.root\<close>, whose
  number is not positive, \<^verbatim>\<open>validateRole\<close> returns no error: the part
  \<^verbatim>\<open>[1-9]*[0-9]+\<close> of the pattern matches every non-empty string of digits.
\<close>

theorem validateRole_accepts_zero_root:
  "validateRole ''0.root'' = None \<and> \<not> spec_role_grammar ''0.root''"
  by (simp add: validateRole_def MatchString_def roleRegex_def matches_def
        spec_role_grammar_def spec_versioned_root_def spec_positive_int_def)

section \<open>Construction of the local handle\<close>

text \<open>
  What \<^verbatim>\<open>newLocalRepo\<close> returns for the three answers of \<^verbatim>\<open>os.Stat\<close> it handles: the
  does-not-exist error, a file that is not a directory, and a directory.  \<^verbatim>\<open>os.Stat\<close>
  follows symbolic links, so a link to a directory is answered as a directory.
\<close>

lemma newLocalRepo_by_stat_answer:
  "(os_Stat' p = (None, Some ENOENT) \<longrightarrow>
      newLocalRepo os_Stat' p =
        Returns (Inl (Wrap (Wrap (OsError ENOENT p) ''tuf repo path validation failed'') ''new tuf repo'')))
   \<and> (os_Stat' p = (Some fi, None) \<and> \<not> IsDir fi \<longrightarrow>
      newLocalRepo os_Stat' p =
        Returns (Inl (Wrap (Errorf ''tuf repo path %q must be a directory'' [p]) ''new tuf repo'')))
   \<and> (os_Stat' p = (Some fi, None) \<and> IsDir fi \<longrightarrow>
      (\<exists>r. newLocalRepo os_Stat' p = Returns (Inr r) \<and> baseDir r = p))"
  by (auto simp: newLocalRepo_def validatePath_def os_IsNotExist_def baseDir_def)

text \<open>
  C8: \<^verbatim>\<open>newLocalRepo\<close> on a path that does not exist is claimed to return an error.
  The path \<open>/etc/hosts/x\<close>, where \<open>/etc/hosts\<close> is a regular file, does not exist, and
  \<^verbatim>\<open>os.Stat\<close> answers it with the error \<open>ENOTDIR\<close>, which \<^verbatim>\<open>os.IsNotExist\<close> does not
  hold for: \<^verbatim>\<open>newLocalRepo\<close> panics and returns no error.
\<close>

theorem newLocalRepo_missing_path_panics:
  "\<not> os_IsNotExist (Some ENOTDIR)
   \<and> newLocalRepo (\<lambda>path. (None, Some ENOTDIR)) ''/etc/hosts/x''
       = Panics ''runtime error: invalid memory address or nil pointer dereference''"
  by (simp add: newLocalRepo_def validatePath_def os_IsNotExist_def)

text \<open>
  C10: \<^verbatim>\<open>validatePath\<close> is not total over the outcomes of \<^verbatim>\<open>os.Stat\<close>.  When
  \<^verbatim>\<open>os.Stat\<close> fails with an error other than does-not-exist, \<^verbatim>\<open>validatePath\<close> calls
  \<^verbatim>\<open>IsDir\<close> on the nil \<^verbatim>\<open>FileInfo\<close> and panics, and so does \<^verbatim>\<open>newLocalRepo\<close>:
  no error value is returned.
\<close>

theorem validatePath_nil_FileInfo_panics:
  "os_Stat' p = (None, Some e) \<Longrightarrow> e \<noteq> ENOENT \<Longrightarrow>
     validatePath os_Stat' p = Panics ''runtime error: invalid memory address or nil pointer dereference''
   \<and> newLocalRepo os_Stat' p = Panics ''runtime error: invalid memory address or nil pointer dereference''"
  by (simp add: newLocalRepo_def validatePath_def os_IsNotExist_def)

text \<open>
  The path \<open>/srv/loop\<close> names a symbolic link to itself, which \<^verbatim>\<open>os.Stat\<close> answers with
  the error \<open>ELOOP\<close>.
\<close>

theorem validatePath_nil_FileInfo_panics_witness:
  "(\<lambda>path. (None :: FileInfo option, Some ELOOP)) ''/srv/loop'' = (None, Some ELOOP)
   \<and> ELOOP \<noteq> ENOENT
   \<and> validatePath (\<lambda>path. (None, Some ELOOP)) ''/srv/loop''
       = Panics ''runtime error: invalid memory address or nil pointer dereference''
   \<and> newLocalRepo (\<lambda>path. (None, Some ELOOP)) ''/srv/loop''
       = Panics ''runtime error: invalid memory address or nil pointer dereference''"
proof -
  have loop: "(\<lambda>path. (None :: FileInfo option, Some ELOOP)) ''/srv/loop'' = (None, Some ELOOP)"
    by simp
  have ne: "ELOOP \<noteq> ENOENT" by simp
  from validatePath_nil_FileInfo_panics
         [of "\<lambda>path. (None, Some ELOOP)" "''/srv/loop''" ELOOP, OF loop ne] ne
  show ?thesis by simp
qed

section \<open>The delegation traversal and its fetch calls\<close>

text \<open>
  What a run returns determines the form of the list of its fetch calls, and the
  \<^verbatim>\<open>RootTarget\<close> it leaves is the successive recording of its successful calls.
\<close>

lemma recorded_append: "recorded (a @ b) = recorded a @ recorded b"
  by (simp add: recorded_def)

lemma recorded_Nil: "recorded [] = []"
  by (simp add: recorded_def)

lemma recorded_Cons: "recorded (x # xs) = recorded1 x @ recorded xs"
  by (simp add: recorded_def)

lemma replay_append: "replay (a @ b) root = replay b (replay a root)"
  by (simp add: replay_def)

lemma replay_Nil: "replay [] root = root"
  by (simp add: replay_def)

lemma shape_append:
  "list_all benign ext1 \<Longrightarrow> shape res ext2 \<Longrightarrow> shape res (ext1 @ ext2)"
  by (auto simp: shape_def butlast_append split: outcome.splits option.splits)

lemma shape_all_benign:
  "shape res ext \<Longrightarrow> res = Returns None \<or> res = Returns (Some ErrTargetSeen) \<Longrightarrow> list_all benign ext"
proof (erule disjE)
  assume "shape res ext" "res = Returns None"
  then show ?thesis by (simp add: shape_def)
next
  assume sh: "shape res ext" and r: "res = Returns (Some ErrTargetSeen)"
  then have ne: "ext \<noteq> []" and bl: "list_all benign (butlast ext)"
    and fo: "fetch_outcome (snd (last ext)) = Some (Returns (Some ErrTargetSeen))"
    by (simp_all add: shape_def)
  from fo have "benign (last ext)"
    by (cases "last ext") (auto simp: fetch_outcome_def benign_def split: option.splits)
  with bl have "list_all benign (butlast ext @ [last ext])" by simp
  with append_butlast_last_id [OF ne] show ?thesis by simp
qed

lemma getDelegatedTarget_loop_logged:
  assumes rec: "\<And>s log root r res s' log' root'.
      recurse ((s, log), root) r = Some (res, ((s', log'), root')) \<Longrightarrow>
      \<exists>ext. log' = log @ ext \<and> shape res ext \<and> root' = replay (recorded ext) root"
  shows "getDelegatedTarget_loop recurse ((s, log), root) names = Some (res, ((s', log'), root')) \<Longrightarrow>
      \<exists>ext. log' = log @ ext \<and> shape res ext \<and> res \<noteq> Returns (Some ErrTargetSeen)
          \<and> root' = replay (recorded ext) root"
proof (induction names arbitrary: s log root)
  case Nil
  then show ?case by (auto simp: shape_def recorded_Nil replay_Nil)
next
  case (Cons name names)
  from Cons.prems obtain res1 s1 log1 root1
    where r1: "recurse ((s, log), root) name = Some (res1, ((s1, log1), root1))"
    by (auto split: option.splits)
  from rec [OF r1] obtain ext1 where ext1: "log1 = log @ ext1" "shape res1 ext1"
    "root1 = replay (recorded ext1) root" by blast
  show ?case
  proof (cases "res1 = Returns None \<or> res1 = Returns (Some ErrTargetSeen)")
    case True
    with Cons.prems r1 have
      "getDelegatedTarget_loop recurse ((s1, log1), root1) names = Some (res, ((s', log'), root'))"
      by auto
    from Cons.IH [OF this] obtain ext2 where ext2: "log' = log1 @ ext2" "shape res ext2"
      "res \<noteq> Returns (Some ErrTargetSeen)" "root' = replay (recorded ext2) root1" by blast
    from shape_all_benign [OF ext1(2) True] ext2(2) have "shape res (ext1 @ ext2)"
      by (rule shape_append)
    with ext1 ext2 show ?thesis
      by (intro exI [of _ "ext1 @ ext2"]) (simp add: recorded_append replay_append)
  next
    case False
    with Cons.prems r1 have "res = res1" "s' = s1" "log' = log1" "root' = root1"
      by (auto split: outcome.splits if_splits)
    with ext1 False show ?thesis by auto
  qed
qed

lemma targetTreeBuilder_loop_logged:
  assumes rec: "\<And>s log root r res s' log' root'.
      call ((s, log), root) r = Some (res, ((s', log'), root')) \<Longrightarrow>
      \<exists>ext. log' = log @ ext \<and> shape res ext \<and> root' = replay (recorded ext) root"
  shows "targetTreeBuilder_loop call ((s, log), root) names = Some (res, ((s', log'), root')) \<Longrightarrow>
      \<exists>ext. log' = log @ ext \<and> shape res ext \<and> root' = replay (recorded ext) root"
proof (induction names arbitrary: s log root)
  case Nil
  then show ?case by (auto simp: shape_def recorded_Nil replay_Nil)
next
  case (Cons name names)
  from Cons.prems obtain res1 s1 log1 root1
    where r1: "call ((s, log), root) name = Some (res1, ((s1, log1), root1))"
    by (auto split: option.splits)
  from rec [OF r1] obtain ext1 where ext1: "log1 = log @ ext1" "shape res1 ext1"
    "root1 = replay (recorded ext1) root" by blast
  show ?case
  proof (cases "res1 = Returns None")
    case True
    with Cons.prems r1 have
      "targetTreeBuilder_loop call ((s1, log1), root1) names = Some (res, ((s', log'), root'))"
      by auto
    from Cons.IH [OF this] obtain ext2 where ext2: "log' = log1 @ ext2" "shape res ext2"
      "root' = replay (recorded ext2) root1" by blast
    from True ext1(2) have "list_all benign ext1" by (simp add: shape_def)
    from this ext2(2) have "shape res (ext1 @ ext2)"
      by (rule shape_append)
    with ext1 ext2 show ?thesis
      by (intro exI [of _ "ext1 @ ext2"]) (simp add: recorded_append replay_append)
  next
    case False
    with Cons.prems r1 have "res = res1" "s' = s1" "log' = log1" "root' = root1"
      by (auto split: outcome.splits if_splits)
    with ext1 False show ?thesis by auto
  qed
qed

lemma getDelegatedTarget_logged:
  "getDelegatedTarget n (logged fetcher) ((s, log), root) r = Some (res, ((s', log'), root')) \<Longrightarrow>
     \<exists>ext. log' = log @ ext \<and> shape res ext \<and> root' = replay (recorded ext) root"
proof (induction n arbitrary: s log root r res s' log' root')
  case 0
  then show ?case by simp
next
  case (Suc n)
  obtain targ err s1 where f: "fetcher s r = ((targ, err), s1)"
    by (metis prod.exhaust)
  show ?case
  proof (cases "err = None \<and> targ \<noteq> None")
    case False
    with Suc.prems f have "log' = log @ [(r, (targ, err))]" "root' = root"
      "fetch_outcome (targ, err) = Some res"
      by (auto simp: logged_def fetch_outcome_def split: option.splits if_splits)
    then show ?thesis
      by (intro exI [of _ "[(r, (targ, err))]"])
         (auto simp: shape_def recorded_def recorded1_def replay_Nil fetch_outcome_def
                split: option.splits outcome.splits)
  next
    case True
    then obtain t where t: "targ = Some t" "err = None" by auto
    with Suc.prems f have loop:
      "getDelegatedTarget_loop (getDelegatedTarget n (logged fetcher))
          ((s1, log @ [(r, (Some t, None))]), append_role root r t) (delegation_names t)
        = Some (res, ((s', log'), root'))"
      by (simp add: logged_def)
    have "\<exists>ext. log' = (log @ [(r, (Some t, None))]) @ ext \<and> shape res ext
            \<and> res \<noteq> Returns (Some ErrTargetSeen)
            \<and> root' = replay (recorded ext) (append_role root r t)"
    proof (rule getDelegatedTarget_loop_logged
              [where recurse = "getDelegatedTarget n (logged fetcher)", OF _ loop])
      fix s0 log0 root0 r0 res0 s'' log'' root''
      assume "getDelegatedTarget n (logged fetcher) ((s0, log0), root0) r0
                = Some (res0, ((s'', log''), root''))"
      then show "\<exists>ext. log'' = log0 @ ext \<and> shape res0 ext \<and> root'' = replay (recorded ext) root0"
        by (rule Suc.IH)
    qed
    then obtain ext where ext: "log' = (log @ [(r, (Some t, None))]) @ ext" "shape res ext"
      "root' = replay (recorded ext) (append_role root r t)" by blast
    have "list_all benign [(r, (Some t, None :: error option))]"
      by (simp add: benign_def)
    from this ext(2) have "shape res ([(r, (Some t, None))] @ ext)"
      by (rule shape_append)
    with ext show ?thesis
      by (intro exI [of _ "[(r, (Some t, None))] @ ext"])
         (simp add: recorded_append recorded_def recorded1_def replay_def)
  qed
qed

text \<open>A run of a wrapped fetcher is the run of the fetcher itself, with the calls listed.\<close>

lemma getDelegatedTarget_loop_erase:
  assumes rec: "\<And>s log root r. map_option erase_log (recurse' ((s, log), root) r) = recurse (s, root) r"
  shows "map_option erase_log (getDelegatedTarget_loop recurse' ((s, log), root) names)
           = getDelegatedTarget_loop recurse (s, root) names"
proof (induction names arbitrary: s log root)
  case Nil
  show ?case by (simp add: erase_log_def)
next
  case (Cons name names)
  have step: "recurse (s, root) name = map_option erase_log (recurse' ((s, log), root) name)"
    by (rule rec [symmetric])
  show ?case
  proof (cases "recurse' ((s, log), root) name")
    case None
    with step show ?thesis by simp
  next
    case (Some x)
    obtain res1 s1 log1 root1 where x: "x = (res1, ((s1, log1), root1))"
      by (metis prod.exhaust)
    with Some step have "recurse (s, root) name = Some (res1, (s1, root1))"
      by (simp add: erase_log_def)
    with Some x Cons.IH [of s1 log1 root1] show ?thesis
      by (simp add: erase_log_def split: outcome.splits)
  qed
qed

lemma targetTreeBuilder_loop_erase:
  assumes rec: "\<And>s log root r. map_option erase_log (call' ((s, log), root) r) = call (s, root) r"
  shows "map_option erase_log (targetTreeBuilder_loop call' ((s, log), root) names)
           = targetTreeBuilder_loop call (s, root) names"
proof (induction names arbitrary: s log root)
  case Nil
  show ?case by (simp add: erase_log_def)
next
  case (Cons name names)
  have step: "call (s, root) name = map_option erase_log (call' ((s, log), root) name)"
    by (rule rec [symmetric])
  show ?case
  proof (cases "call' ((s, log), root) name")
    case None
    with step show ?thesis by simp
  next
    case (Some x)
    obtain res1 s1 log1 root1 where x: "x = (res1, ((s1, log1), root1))"
      by (metis prod.exhaust)
    with Some step have "call (s, root) name = Some (res1, (s1, root1))"
      by (simp add: erase_log_def)
    with Some x Cons.IH [of s1 log1 root1] show ?thesis
      by (simp add: erase_log_def split: outcome.splits)
  qed
qed

lemma getDelegatedTarget_erase:
  "map_option erase_log (getDelegatedTarget n (logged fetcher) ((s, log), root) r)
     = getDelegatedTarget n fetcher (s, root) r"
proof (induction n arbitrary: s log root r)
  case 0
  show ?case by simp
next
  case (Suc n)
  obtain targ err s1 where f: "fetcher s r = ((targ, err), s1)"
    by (metis prod.exhaust)
  show ?case
  proof (cases "err = None \<and> targ \<noteq> None")
    case False
    with f show ?thesis
      by (auto simp: logged_def erase_log_def split: option.splits)
  next
    case True
    then obtain t where t: "targ = Some t" "err = None" by auto
    have "map_option erase_log
            (getDelegatedTarget_loop (getDelegatedTarget n (logged fetcher))
               ((s1, log @ [(r, (Some t, None))]), append_role root r t) (delegation_names t))
          = getDelegatedTarget_loop (getDelegatedTarget n fetcher)
               (s1, append_role root r t) (delegation_names t)"
      by (rule getDelegatedTarget_loop_erase) (rule Suc.IH)
    with f t show ?thesis by (simp add: logged_def)
  qed
qed

lemma targetTreeBuilder_erase:
  "map_option erase_tree_log (targetTreeBuilder n (logged fetcher) (s, log)) = targetTreeBuilder n fetcher s"
proof -
  obtain targ err s1 where f: "fetcher s roleTargets = ((targ, err), s1)"
    by (metis prod.exhaust)
  show ?thesis
  proof (cases "err = None \<and> targ \<noteq> None")
    case False
    with f show ?thesis
      by (auto simp: targetTreeBuilder_def logged_def erase_tree_log_def split: option.splits)
  next
    case True
    then obtain t where t: "targ = Some t" "err = None" by auto
    let ?root = "append_role \<lparr>Targets = t, paths = Map.empty, targetLookup = Map.empty\<rparr> roleTargets t"
    have e: "map_option erase_log
            (targetTreeBuilder_loop (getDelegatedTarget n (logged fetcher))
               ((s1, log @ [(roleTargets, (Some t, None))]), ?root) (delegation_names t))
          = targetTreeBuilder_loop (getDelegatedTarget n fetcher) (s1, ?root) (delegation_names t)"
      by (rule targetTreeBuilder_loop_erase) (rule getDelegatedTarget_erase)
    show ?thesis
    proof (cases "targetTreeBuilder_loop (getDelegatedTarget n (logged fetcher))
               ((s1, log @ [(roleTargets, (Some t, None))]), ?root) (delegation_names t)")
      case None
      with e f t show ?thesis
        by (simp add: targetTreeBuilder_def logged_def)
    next
      case (Some x)
      obtain res1 s2 log2 root2 where x: "x = (res1, ((s2, log2), root2))"
        by (metis prod.exhaust)
      with Some e have "targetTreeBuilder_loop (getDelegatedTarget n fetcher) (s1, ?root) (delegation_names t)
          = Some (res1, (s2, root2))"
        by (simp add: erase_log_def)
      with Some x f t show ?thesis
        by (simp add: targetTreeBuilder_def logged_def erase_tree_log_def
              split: outcome.splits option.splits)
    qed
  qed
qed

lemma plain_run_of_logged:
  "targetTreeBuilder n (logged fetcher) (s, log0) = Some (res, (s', log)) \<Longrightarrow>
     targetTreeBuilder n fetcher s = Some (res, s')"
  using targetTreeBuilder_erase [of n fetcher s log0] by (simp add: erase_tree_log_def)

lemma logged_run_exists:
  assumes "targetTreeBuilder n fetcher s = Some (res, s')"
  shows "\<exists>log. targetTreeBuilder n (logged fetcher) (s, []) = Some (res, (s', log))"
proof -
  from assms targetTreeBuilder_erase [of n fetcher s "[]"]
  have "map_option erase_tree_log (targetTreeBuilder n (logged fetcher) (s, [])) = Some (res, s')"
    by simp
  then show ?thesis
    by (auto simp: erase_tree_log_def)
qed

lemma targetTreeBuilder_logged:
  assumes run: "targetTreeBuilder n (logged fetcher) (s, []) = Some (res, (s', log))"
  shows "\<exists>res0 s0 ext. fetcher s roleTargets = (res0, s0) \<and> log = (roleTargets, res0) # ext
           \<and> shape (as_error res) log
           \<and> (\<forall>rt. res = Returns (Inr rt) \<longrightarrow>
                 (\<exists>t0. res0 = (Some t0, None) \<and>
                    rt = replay (recorded log) \<lparr>Targets = t0, paths = Map.empty, targetLookup = Map.empty\<rparr>))"
proof -
  obtain targ err s1 where f: "fetcher s roleTargets = ((targ, err), s1)"
    by (metis prod.exhaust)
  show ?thesis
  proof (cases "err = None \<and> targ \<noteq> None")
    case False
    with f run have "log = [(roleTargets, (targ, err))]"
      and "fetch_outcome (targ, err) = Some (as_error res)"
      by (auto simp: targetTreeBuilder_def logged_def fetch_outcome_def as_error_def
               split: option.splits)
    with f False show ?thesis
      by (auto simp: shape_def fetch_outcome_def as_error_def split: option.splits outcome.splits sum.splits)
  next
    case True
    then obtain t where t: "targ = Some t" "err = None" by auto
    let ?init = "\<lparr>Targets = t, paths = Map.empty, targetLookup = Map.empty\<rparr>"
    let ?root = "append_role ?init roleTargets t"
    from run f t obtain res1 root2 where
      loop: "targetTreeBuilder_loop (getDelegatedTarget n (logged fetcher))
               ((s1, [(roleTargets, (Some t, None))]), ?root) (delegation_names t)
             = Some (res1, ((s', log), root2))"
      and res: "res = (case res1 of Panics msg \<Rightarrow> Panics msg
                       | Returns (Some e) \<Rightarrow> Returns (Inl e)
                       | Returns None \<Rightarrow> Returns (Inr root2))"
      by (auto simp: targetTreeBuilder_def logged_def split: option.splits outcome.splits)
    have "\<exists>ext. log = [(roleTargets, (Some t, None))] @ ext \<and> shape res1 ext
            \<and> root2 = replay (recorded ext) ?root"
    proof (rule targetTreeBuilder_loop_logged
              [where call = "getDelegatedTarget n (logged fetcher)", OF _ loop])
      fix s0 log0 root0 r0 res0 s'' log'' root''
      assume "getDelegatedTarget n (logged fetcher) ((s0, log0), root0) r0
                = Some (res0, ((s'', log''), root''))"
      then show "\<exists>ext. log'' = log0 @ ext \<and> shape res0 ext \<and> root'' = replay (recorded ext) root0"
        by (rule getDelegatedTarget_logged)
    qed
    then obtain ext where ext: "log = [(roleTargets, (Some t, None))] @ ext" "shape res1 ext"
      "root2 = replay (recorded ext) ?root" by blast
    have "list_all benign [(roleTargets, (Some t, None :: error option))]"
      by (simp add: benign_def)
    from this ext(2) have sh: "shape res1 ([(roleTargets, (Some t, None))] @ ext)"
      by (rule shape_append)
    from res have ae: "as_error res = res1"
      by (auto simp: as_error_def split: outcome.splits option.splits)
    from ext(1,3) have rp: "root2 = replay (recorded log) ?init"
      by (simp add: recorded_Cons recorded1_def replay_def)
    from res have "\<forall>rt. res = Returns (Inr rt) \<longrightarrow> rt = root2"
      by (auto split: outcome.splits option.splits)
    with f t ext(1) sh ae rp show ?thesis by auto
  qed
qed

lemma top_level_fetch_fails:
  "fetcher s roleTargets = ((targ, Some e), s0) \<Longrightarrow>
     targetTreeBuilder n fetcher s = Some (Returns (Inl e), s0)"
  by (simp add: targetTreeBuilder_def)

lemma fatal_entry_is_last:
  assumes sh: "shape r log" and i: "i < length log" and entry: "log ! i = (name, (targ, Some e))"
    and fatal: "e \<noteq> ErrTargetSeen"
  shows "r = Returns (Some e) \<and> Suc i = length log"
proof -
  from entry fatal have nb: "\<not> benign (log ! i)"
    by (simp add: benign_def)
  have "r \<noteq> Returns None"
  proof
    assume "r = Returns None"
    with sh have "list_all benign log" by (simp add: shape_def)
    with i nb show False by (simp add: list_all_length)
  qed
  with sh have ne: "log \<noteq> []" and bl: "list_all benign (butlast log)"
    and fo: "fetch_outcome (snd (last log)) = Some r"
    by (auto simp: shape_def split: outcome.splits option.splits)
  have "\<not> i < length (butlast log)"
  proof
    assume "i < length (butlast log)"
    with bl have "benign (butlast log ! i)" by (simp add: list_all_length)
    with \<open>i < length (butlast log)\<close> nb show False by (simp add: nth_butlast)
  qed
  with i have last: "Suc i = length log" by simp
  from last have "i = length log - 1" by simp
  with ne have "last log = log ! i" by (simp add: last_conv_nth)
  with fo entry have "r = Returns (Some e)"
    by (auto simp: fetch_outcome_def split: option.splits)
  with last show ?thesis by simp
qed

lemmas run_simps = targetTreeBuilder_def seenFetcher_def logged_def roleTargets_def
  append_role_def role_of_def eval_nat_numeral

section \<open>Failure of a resolution\<close>

text \<open>The traversal returns what the run that keeps its state has reached, if it returned.\<close>

lemma getDelegatedTarget_loop_returned:
  assumes rec: "\<And>st r. recurse st r = returned (recurse' st r)"
  shows "getDelegatedTarget_loop recurse st names = returned (getDelegatedTarget_loop_run recurse' st names)"
proof (induction names arbitrary: st)
  case Nil
  show ?case by (simp add: returned_def)
next
  case (Cons name names)
  obtain p1 st1 where r1: "recurse' st name = (p1, st1)" by (cases "recurse' st name")
  with rec [of st name] Cons.IH [of st1] show ?case
    by (auto simp: returned_def split: option.splits outcome.splits)
qed

lemma targetTreeBuilder_loop_returned:
  assumes rec: "\<And>st r. call st r = returned (call' st r)"
  shows "targetTreeBuilder_loop call st names = returned (targetTreeBuilder_loop_run call' st names)"
proof (induction names arbitrary: st)
  case Nil
  show ?case by (simp add: returned_def)
next
  case (Cons name names)
  obtain p1 st1 where r1: "call' st name = (p1, st1)" by (cases "call' st name")
  with rec [of st name] Cons.IH [of st1] show ?case
    by (auto simp: returned_def split: option.splits outcome.splits)
qed

lemma getDelegatedTarget_returned:
  "getDelegatedTarget n fetcher st r = returned (getDelegatedTarget_run n fetcher st r)"
proof (induction n arbitrary: st r)
  case 0
  show ?case by (simp add: returned_def)
next
  case (Suc n)
  obtain s root where st: "st = (s, root)" by (cases st)
  obtain targ err s1 where f: "fetcher s r = ((targ, err), s1)"
    by (metis prod.exhaust)
  show ?case
  proof (cases "err = None \<and> targ \<noteq> None")
    case False
    with st f show ?thesis
      by (auto simp: returned_def split: option.splits)
  next
    case True
    then obtain t where t: "targ = Some t" "err = None" by auto
    have "getDelegatedTarget_loop (getDelegatedTarget n fetcher) (s1, append_role root r t)
             (delegation_names t)
          = returned (getDelegatedTarget_loop_run (getDelegatedTarget_run n fetcher)
             (s1, append_role root r t) (delegation_names t))"
      by (rule getDelegatedTarget_loop_returned) (rule Suc.IH)
    with st f t show ?thesis by simp
  qed
qed

lemma targetTreeBuilder_returned:
  "targetTreeBuilder n fetcher s = returned (targetTreeBuilder_run n fetcher s)"
proof -
  obtain targ err s1 where f: "fetcher s roleTargets = ((targ, err), s1)"
    by (metis prod.exhaust)
  show ?thesis
  proof (cases "err = None \<and> targ \<noteq> None")
    case False
    with f show ?thesis
      by (auto simp: targetTreeBuilder_def targetTreeBuilder_run_def returned_def split: option.splits)
  next
    case True
    then obtain t where t: "targ = Some t" "err = None" by auto
    let ?root = "append_role \<lparr>Targets = t, paths = Map.empty, targetLookup = Map.empty\<rparr> roleTargets t"
    have e: "targetTreeBuilder_loop (getDelegatedTarget n fetcher) (s1, ?root) (delegation_names t)
          = returned (targetTreeBuilder_loop_run (getDelegatedTarget_run n fetcher)
               (s1, ?root) (delegation_names t))"
      by (rule targetTreeBuilder_loop_returned) (rule getDelegatedTarget_returned)
    obtain p2 s2 root2 where x: "targetTreeBuilder_loop_run (getDelegatedTarget_run n fetcher)
               (s1, ?root) (delegation_names t) = (p2, (s2, root2))"
      by (metis prod.exhaust)
    with e f t show ?thesis
      by (auto simp: targetTreeBuilder_def targetTreeBuilder_run_def returned_def
               split: option.splits outcome.splits)
  qed
qed

text \<open>
  The fetch calls of a run that keeps its state: when the bound on the depth is reached,
  every call made so far was benign.
\<close>

lemma shape_run_append:
  "list_all benign ext1 \<Longrightarrow> shape_run progress ext2 \<Longrightarrow> shape_run progress (ext1 @ ext2)"
  by (cases progress) (simp_all add: shape_run_def shape_append)

lemma getDelegatedTarget_loop_run_logged:
  assumes rec: "\<And>s log root r progress s' log' root'.
      recurse ((s, log), root) r = (progress, ((s', log'), root')) \<Longrightarrow>
      \<exists>ext. log' = log @ ext \<and> shape_run progress ext"
  shows "getDelegatedTarget_loop_run recurse ((s, log), root) names = (progress, ((s', log'), root')) \<Longrightarrow>
      \<exists>ext. log' = log @ ext \<and> shape_run progress ext"
proof (induction names arbitrary: s log root)
  case Nil
  then show ?case by (auto simp: shape_run_def shape_def)
next
  case (Cons name names)
  obtain p1 s1 log1 root1
    where r1: "recurse ((s, log), root) name = (p1, ((s1, log1), root1))"
    by (metis prod.exhaust)
  from rec [OF r1] obtain ext1 where ext1: "log1 = log @ ext1" "shape_run p1 ext1" by blast
  show ?case
  proof (cases "p1 = Some (Returns None) \<or> p1 = Some (Returns (Some ErrTargetSeen))")
    case True
    with Cons.prems r1 have
      "getDelegatedTarget_loop_run recurse ((s1, log1), root1) names = (progress, ((s', log'), root'))"
      by auto
    from Cons.IH [OF this] obtain ext2 where ext2: "log' = log1 @ ext2" "shape_run progress ext2"
      by blast
    from True ext1(2) have "list_all benign ext1"
      by (auto simp: shape_run_def intro: shape_all_benign)
    from this ext2(2) have "shape_run progress (ext1 @ ext2)"
      by (rule shape_run_append)
    with ext1 ext2 show ?thesis by auto
  next
    case False
    with Cons.prems r1 have "progress = p1" "log' = log1"
      by (auto split: option.splits outcome.splits if_splits)
    with ext1 show ?thesis by auto
  qed
qed

lemma targetTreeBuilder_loop_run_logged:
  assumes rec: "\<And>s log root r progress s' log' root'.
      call ((s, log), root) r = (progress, ((s', log'), root')) \<Longrightarrow>
      \<exists>ext. log' = log @ ext \<and> shape_run progress ext"
  shows "targetTreeBuilder_loop_run call ((s, log), root) names = (progress, ((s', log'), root')) \<Longrightarrow>
      \<exists>ext. log' = log @ ext \<and> shape_run progress ext"
proof (induction names arbitrary: s log root)
  case Nil
  then show ?case by (auto simp: shape_run_def shape_def)
next
  case (Cons name names)
  obtain p1 s1 log1 root1
    where r1: "call ((s, log), root) name = (p1, ((s1, log1), root1))"
    by (metis prod.exhaust)
  from rec [OF r1] obtain ext1 where ext1: "log1 = log @ ext1" "shape_run p1 ext1" by blast
  show ?case
  proof (cases "p1 = Some (Returns None)")
    case True
    with Cons.prems r1 have
      "targetTreeBuilder_loop_run call ((s1, log1), root1) names = (progress, ((s', log'), root'))"
      by auto
    from Cons.IH [OF this] obtain ext2 where ext2: "log' = log1 @ ext2" "shape_run progress ext2"
      by blast
    from True ext1(2) have "list_all benign ext1"
      by (simp add: shape_run_def shape_def)
    from this ext2(2) have "shape_run progress (ext1 @ ext2)"
      by (rule shape_run_append)
    with ext1 ext2 show ?thesis by auto
  next
    case False
    with Cons.prems r1 have "progress = p1" "log' = log1"
      by (auto split: option.splits outcome.splits if_splits)
    with ext1 show ?thesis by auto
  qed
qed

lemma getDelegatedTarget_run_logged:
  "getDelegatedTarget_run n (logged fetcher) ((s, log), root) r = (progress, ((s', log'), root')) \<Longrightarrow>
     \<exists>ext. log' = log @ ext \<and> shape_run progress ext"
proof (induction n arbitrary: s log root r progress s' log' root')
  case 0
  then show ?case by (auto simp: shape_run_def)
next
  case (Suc n)
  obtain targ err s1 where f: "fetcher s r = ((targ, err), s1)"
    by (metis prod.exhaust)
  show ?case
  proof (cases "err = None \<and> targ \<noteq> None")
    case False
    with Suc.prems f have "log' = log @ [(r, (targ, err))]"
      "map_option Some (fetch_outcome (targ, err)) = Some progress"
      by (auto simp: logged_def fetch_outcome_def split: option.splits if_splits)
    then show ?thesis
      by (intro exI [of _ "[(r, (targ, err))]"])
         (auto simp: shape_run_def shape_def fetch_outcome_def split: option.splits outcome.splits)
  next
    case True
    then obtain t where t: "targ = Some t" "err = None" by auto
    with Suc.prems f have loop:
      "getDelegatedTarget_loop_run (getDelegatedTarget_run n (logged fetcher))
          ((s1, log @ [(r, (Some t, None))]), append_role root r t) (delegation_names t)
        = (progress, ((s', log'), root'))"
      by (simp add: logged_def)
    have "\<exists>ext. log' = (log @ [(r, (Some t, None))]) @ ext \<and> shape_run progress ext"
    proof (rule getDelegatedTarget_loop_run_logged
              [where recurse = "getDelegatedTarget_run n (logged fetcher)", OF _ loop])
      fix s0 log0 root0 r0 p0 s'' log'' root''
      assume "getDelegatedTarget_run n (logged fetcher) ((s0, log0), root0) r0
                = (p0, ((s'', log''), root''))"
      then show "\<exists>ext. log'' = log0 @ ext \<and> shape_run p0 ext"
        by (rule Suc.IH)
    qed
    then obtain ext where ext: "log' = (log @ [(r, (Some t, None))]) @ ext" "shape_run progress ext"
      by blast
    have "list_all benign [(r, (Some t, None :: error option))]"
      by (simp add: benign_def)
    from this ext(2) have "shape_run progress ([(r, (Some t, None))] @ ext)"
      by (rule shape_run_append)
    with ext show ?thesis
      by (intro exI [of _ "[(r, (Some t, None))] @ ext"]) simp
  qed
qed

lemma targetTreeBuilder_run_logged:
  assumes run: "targetTreeBuilder_run n (logged fetcher) (s, []) = (progress, (s', log))"
  shows "shape_run (map_option as_error progress) log"
proof -
  obtain targ err s1 where f: "fetcher s roleTargets = ((targ, err), s1)"
    by (metis prod.exhaust)
  show ?thesis
  proof (cases "err = None \<and> targ \<noteq> None")
    case False
    with f run have "log = [(roleTargets, (targ, err))]"
      and "fetch_outcome (targ, err) = map_option as_error progress"
      by (auto simp: targetTreeBuilder_run_def logged_def fetch_outcome_def as_error_def
               split: option.splits)
    with False show ?thesis
      by (auto simp: shape_run_def shape_def fetch_outcome_def split: option.splits outcome.splits)
  next
    case True
    then obtain t where t: "targ = Some t" "err = None" by auto
    let ?init = "\<lparr>Targets = t, paths = Map.empty, targetLookup = Map.empty\<rparr>"
    let ?root = "append_role ?init roleTargets t"
    obtain p1 s2 log2 root2 where
      loop: "targetTreeBuilder_loop_run (getDelegatedTarget_run n (logged fetcher))
               ((s1, [(roleTargets, (Some t, None))]), ?root) (delegation_names t)
             = (p1, ((s2, log2), root2))"
      by (metis prod.exhaust)
    with run f t have lg: "log = log2" and pr: "map_option as_error progress = p1"
      by (auto simp: targetTreeBuilder_run_def logged_def as_error_def
               split: option.splits outcome.splits)
    have "\<exists>ext. log2 = [(roleTargets, (Some t, None))] @ ext \<and> shape_run p1 ext"
      by (rule targetTreeBuilder_loop_run_logged
              [where call = "getDelegatedTarget_run n (logged fetcher)", OF _ loop])
         (rule getDelegatedTarget_run_logged)
    then obtain ext where ext: "log2 = [(roleTargets, (Some t, None))] @ ext" "shape_run p1 ext"
      by blast
    have "list_all benign [(roleTargets, (Some t, None :: error option))]"
      by (simp add: benign_def)
    from this ext(2) have "shape_run p1 ([(roleTargets, (Some t, None))] @ ext)"
      by (rule shape_run_append)
    with ext lg pr show ?thesis by simp
  qed
qed

text \<open>
  C5: No partial trees.  If the fetch of the top-level targets role fails,
  \<^verbatim>\<open>targetTreeBuilder\<close> returns that error and no tree, whatever the bound on the depth.
  For every fetcher and every bound, take the fetch calls the traversal makes, up to
  its return or up to the bound.  If one of them failed with an error other than
  \<^verbatim>\<open>errTargetSeen\<close>, then \<^verbatim>\<open>targetTreeBuilder\<close> returns, its result is that error and no
  \<^verbatim>\<open>RootTarget\<close>, and the failed call is the last call made: the error is the first of
  its kind and nothing is fetched after it.
\<close>

theorem no_partial_trees:
  "(fetcher s roleTargets = ((targ, Some e), s0) \<longrightarrow>
       targetTreeBuilder n fetcher s = Some (Returns (Inl e), s0))
   \<and> (targetTreeBuilder_run n (logged fetcher) (s, []) = (progress, (s', log))
        \<and> i < length log \<and> log ! i = (name, (targ', Some e')) \<and> e' \<noteq> ErrTargetSeen
      \<longrightarrow> targetTreeBuilder n fetcher s = Some (Returns (Inl e'), s') \<and> Suc i = length log)"
proof (rule conjI; rule impI)
  assume "fetcher s roleTargets = ((targ, Some e), s0)"
  then show "targetTreeBuilder n fetcher s = Some (Returns (Inl e), s0)"
    by (rule top_level_fetch_fails)
next
  assume a: "targetTreeBuilder_run n (logged fetcher) (s, []) = (progress, (s', log))
        \<and> i < length log \<and> log ! i = (name, (targ', Some e')) \<and> e' \<noteq> ErrTargetSeen"
  then have run: "targetTreeBuilder_run n (logged fetcher) (s, []) = (progress, (s', log))"
    and i: "i < length log" and entry: "log ! i = (name, (targ', Some e'))"
    and fatal: "e' \<noteq> ErrTargetSeen"
    by simp_all
  from targetTreeBuilder_run_logged [OF run]
  have sh: "shape_run (map_option as_error progress) log" .
  from entry fatal have nb: "\<not> benign (log ! i)"
    by (simp add: benign_def)
  have "progress \<noteq> None"
  proof
    assume "progress = None"
    with sh have "list_all benign log" by (simp add: shape_run_def)
    with i nb show False by (simp add: list_all_length)
  qed
  then obtain res where res: "progress = Some res" by auto
  with sh have "shape (as_error res) log" by (simp add: shape_run_def)
  from fatal_entry_is_last [OF this i entry fatal]
  have ae: "as_error res = Returns (Some e')" and last: "Suc i = length log"
    by simp_all
  from ae have "res = Returns (Inl e')"
    by (auto simp: as_error_def split: outcome.splits sum.splits)
  with run res have "returned (targetTreeBuilder_run n (logged fetcher) (s, []))
      = Some (Returns (Inl e'), (s', log))"
    by (simp add: returned_def)
  then have "targetTreeBuilder n (logged fetcher) (s, []) = Some (Returns (Inl e'), (s', log))"
    by (simp add: targetTreeBuilder_returned)
  from plain_run_of_logged [OF this] last
  show "targetTreeBuilder n fetcher s = Some (Returns (Inl e'), s') \<and> Suc i = length log"
    by simp
qed

theorem no_partial_trees_witness:
  "seenFetcher (Map.empty :: string \<rightharpoonup> nat Targets) [] roleTargets
        = ((None, Some (ErrExternal ''targets'')), [])
   \<and> targetTreeBuilder 0 (seenFetcher (Map.empty :: string \<rightharpoonup> nat Targets)) []
        = Some (Returns (Inl (ErrExternal ''targets'')), [])
   \<and> targetTreeBuilder_run 3 (logged (seenFetcher broken_graph)) ([], [])
        = (Some (Returns (Inl (ErrExternal ''C''))),
           ([''targets'', ''A''],
            [(''targets'', (Some (role_of [] [''A'', ''B'']), None)),
             (''A'', (Some (role_of [(''/x'', 1)] [''C'']), None)),
             (''C'', (None, Some (ErrExternal ''C'')))]))
   \<and> targetTreeBuilder 3 (seenFetcher broken_graph) []
        = Some (Returns (Inl (ErrExternal ''C'')), [''targets'', ''A''])"
proof -
  let ?log = "[(''targets'', (Some (role_of [] [''A'', ''B'']), None)),
               (''A'', (Some (role_of [(''/x'', 1)] [''C'']), None)),
               (''C'', (None :: nat Targets option, Some (ErrExternal ''C'')))]"
  have top: "seenFetcher (Map.empty :: string \<rightharpoonup> nat Targets) [] roleTargets
               = ((None, Some (ErrExternal ''targets'')), [])"
    by (simp add: seenFetcher_def roleTargets_def)
  have run: "targetTreeBuilder_run 3 (logged (seenFetcher broken_graph)) ([], [])
        = (Some (Returns (Inl (ErrExternal ''C''))), ([''targets'', ''A''], ?log))"
    by (simp add: targetTreeBuilder_run_def run_simps broken_graph_def)
  have call: "targetTreeBuilder_run 3 (logged (seenFetcher broken_graph)) ([], [])
        = (Some (Returns (Inl (ErrExternal ''C''))), ([''targets'', ''A''], ?log))
      \<and> 2 < length ?log \<and> ?log ! 2 = (''C'', (None, Some (ErrExternal ''C'')))
      \<and> ErrExternal ''C'' \<noteq> ErrTargetSeen"
    using run by simp
  from no_partial_trees [where fetcher = "seenFetcher (Map.empty :: string \<rightharpoonup> nat Targets)"
          and s = "[]" and n = 0, THEN conjunct1, rule_format, OF top]
       no_partial_trees [where fetcher = "seenFetcher broken_graph" and s = "[]" and n = 3 and i = 2,
          THEN conjunct2, rule_format, OF call]
       top run
  show ?thesis by simp
qed

section \<open>Termination\<close>

text \<open>A run that returns within a bound on the depth returns the same within a larger one.\<close>

lemma getDelegatedTarget_loop_mono:
  assumes rec: "\<And>st r x. recurse st r = Some x \<Longrightarrow> recurse' st r = Some x"
  shows "getDelegatedTarget_loop recurse st names = Some x \<Longrightarrow>
         getDelegatedTarget_loop recurse' st names = Some x"
proof (induction names arbitrary: st)
  case Nil
  then show ?case by simp
next
  case (Cons name names)
  from Cons.prems obtain res1 st1 where r1: "recurse st name = Some (res1, st1)"
    by (auto split: option.splits)
  from rec [OF r1] r1 Cons.prems Cons.IH [of st1] show ?case
    by (auto split: outcome.splits if_splits)
qed

lemma targetTreeBuilder_loop_mono:
  assumes rec: "\<And>st r x. call st r = Some x \<Longrightarrow> call' st r = Some x"
  shows "targetTreeBuilder_loop call st names = Some x \<Longrightarrow>
         targetTreeBuilder_loop call' st names = Some x"
proof (induction names arbitrary: st)
  case Nil
  then show ?case by simp
next
  case (Cons name names)
  from Cons.prems obtain res1 st1 where r1: "call st name = Some (res1, st1)"
    by (auto split: option.splits)
  from rec [OF r1] r1 Cons.prems Cons.IH [of st1] show ?case
    by (auto split: outcome.splits if_splits)
qed

lemma getDelegatedTarget_mono:
  "getDelegatedTarget n fetcher st r = Some x \<Longrightarrow> getDelegatedTarget (n + k) fetcher st r = Some x"
proof (induction n arbitrary: st r x)
  case 0
  then show ?case by simp
next
  case (Suc n)
  obtain s root where st: "st = (s, root)" by (cases st)
  obtain targ err s1 where f: "fetcher s r = ((targ, err), s1)"
    by (metis prod.exhaust)
  show ?case
  proof (cases "err = None \<and> targ \<noteq> None")
    case False
    with Suc.prems st f show ?thesis
      by (auto split: option.splits)
  next
    case True
    then obtain t where t: "targ = Some t" "err = None" by auto
    with Suc.prems st f have
      "getDelegatedTarget_loop (getDelegatedTarget n fetcher) (s1, append_role root r t)
          (delegation_names t) = Some x"
      by simp
    then have
      "getDelegatedTarget_loop (getDelegatedTarget (n + k) fetcher) (s1, append_role root r t)
          (delegation_names t) = Some x"
      by (rule getDelegatedTarget_loop_mono [rotated]) (rule Suc.IH)
    with st f t show ?thesis by simp
  qed
qed

lemma targetTreeBuilder_mono:
  assumes run: "targetTreeBuilder n fetcher s = Some x" and le: "n \<le> m"
  shows "targetTreeBuilder m fetcher s = Some x"
proof -
  from le obtain k where m: "m = n + k" by (auto simp: le_iff_add)
  obtain targ err s1 where f: "fetcher s roleTargets = ((targ, err), s1)"
    by (metis prod.exhaust)
  show ?thesis
  proof (cases "err = None \<and> targ \<noteq> None")
    case False
    with run f show ?thesis
      by (auto simp: targetTreeBuilder_def split: option.splits)
  next
    case True
    then obtain t where t: "targ = Some t" "err = None" by auto
    let ?root = "append_role \<lparr>Targets = t, paths = Map.empty, targetLookup = Map.empty\<rparr> roleTargets t"
    from run f t obtain y where
      loop: "targetTreeBuilder_loop (getDelegatedTarget n fetcher) (s1, ?root) (delegation_names t) = Some y"
      by (auto simp: targetTreeBuilder_def split: option.splits)
    then have "targetTreeBuilder_loop (getDelegatedTarget (n + k) fetcher) (s1, ?root) (delegation_names t)
                 = Some y"
      by (rule targetTreeBuilder_loop_mono [rotated]) (rule getDelegatedTarget_mono)
    with loop run f t m show ?thesis
      by (simp add: targetTreeBuilder_def)
  qed
qed

text \<open>
  With the fetcher that answers \<^verbatim>\<open>errTargetSeen\<close> for a role handed out before, each
  level of recursion hands out a role of the store not seen before, so the depth is at
  most the number of roles in the store.
\<close>

lemma getDelegatedTarget_loop_seen_total:
  assumes rec: "\<And>seen root r. set seen0 \<subseteq> set seen \<Longrightarrow>
      \<exists>res seen' root'. recurse (seen, root) r = Some (res, (seen', root')) \<and> set seen \<subseteq> set seen'"
  shows "set seen0 \<subseteq> set seen \<Longrightarrow>
      \<exists>res seen' root'. getDelegatedTarget_loop recurse (seen, root) names = Some (res, (seen', root'))
         \<and> set seen \<subseteq> set seen'"
proof (induction names arbitrary: seen root)
  case Nil
  show ?case by simp
next
  case (Cons name names)
  from rec [OF Cons.prems] obtain res1 seen1 root1
    where r1: "recurse (seen, root) name = Some (res1, (seen1, root1))" and sub: "set seen \<subseteq> set seen1"
    by blast
  from Cons.prems sub have "set seen0 \<subseteq> set seen1" by simp
  from Cons.IH [OF this] obtain res2 seen2 root2
    where r2: "getDelegatedTarget_loop recurse (seen1, root1) names = Some (res2, (seen2, root2))"
      and sub2: "set seen1 \<subseteq> set seen2"
    by blast
  from sub sub2 have "set seen \<subseteq> set seen2" by simp
  with r1 r2 sub show ?case
    by (cases res1) auto
qed

lemma targetTreeBuilder_loop_seen_total:
  assumes rec: "\<And>seen root r.
      \<exists>res seen' root'. call (seen, root) r = Some (res, (seen', root'))"
  shows "\<exists>res seen' root'. targetTreeBuilder_loop call (seen, root) names = Some (res, (seen', root'))"
proof (induction names arbitrary: seen root)
  case Nil
  show ?case by simp
next
  case (Cons name names)
  from rec obtain res1 seen1 root1
    where r1: "call (seen, root) name = Some (res1, (seen1, root1))"
    by blast
  from Cons.IH obtain res2 seen2 root2
    where r2: "targetTreeBuilder_loop call (seen1, root1) names = Some (res2, (seen2, root2))"
    by blast
  with r1 show ?case
    by (cases res1) auto
qed

lemma getDelegatedTarget_seen_total:
  "finite (dom g) \<Longrightarrow> card (dom g - set seen) < n \<Longrightarrow>
     \<exists>res seen' root'. getDelegatedTarget n (seenFetcher g) (seen, root) r = Some (res, (seen', root'))
        \<and> set seen \<subseteq> set seen'"
proof (induction n arbitrary: seen root r)
  case 0
  then show ?case by simp
next
  case (Suc n)
  show ?case
  proof (cases "r \<in> set seen \<or> g r = None")
    case True
    then have "\<exists>e. seenFetcher g seen r = ((None, Some e), seen)"
      by (auto simp: seenFetcher_def)
    then show ?thesis
      by auto
  next
    case False
    then obtain t where t: "g r = Some t" and fresh: "r \<notin> set seen" by auto
    from t fresh have "dom g - set (seen @ [r]) \<subset> dom g - set seen" by auto
    with Suc.prems(1) have "card (dom g - set (seen @ [r])) < card (dom g - set seen)"
      by (intro psubset_card_mono) auto
    with Suc.prems(2) have small: "card (dom g - set (seen @ [r])) < n" by simp
    have "\<exists>res seen' root'.
        getDelegatedTarget_loop (getDelegatedTarget n (seenFetcher g))
            (seen @ [r], append_role root r t) (delegation_names t) = Some (res, (seen', root'))
         \<and> set (seen @ [r]) \<subseteq> set seen'"
    proof (rule getDelegatedTarget_loop_seen_total [where ?seen0.0 = "seen @ [r]"])
      fix seen1 :: "string list" and root1 :: "'a RootTarget" and r1
      assume sub: "set (seen @ [r]) \<subseteq> set seen1"
      then have "dom g - set seen1 \<subseteq> dom g - set (seen @ [r])" by auto
      with Suc.prems(1) have "card (dom g - set seen1) \<le> card (dom g - set (seen @ [r]))"
        by (intro card_mono) auto
      with small have "card (dom g - set seen1) < n" by simp
      from Suc.IH [OF Suc.prems(1) this]
      show "\<exists>res seen' root'. getDelegatedTarget n (seenFetcher g) (seen1, root1) r1
                = Some (res, (seen', root')) \<and> set seen1 \<subseteq> set seen'" .
    qed simp
    moreover from t fresh have "seenFetcher g seen r = ((Some t, None), seen @ [r])"
      by (simp add: seenFetcher_def)
    ultimately show ?thesis
      by auto
  qed
qed

lemma card_dom_map_of: "card (dom (map_of store)) \<le> length store"
proof -
  have "card (fst ` set store) \<le> card (set store)" by (rule card_image_le) simp
  also have "\<dots> \<le> length store" by (rule card_length)
  finally show ?thesis by (simp add: dom_map_of_conv_image_fst)
qed

lemma targetTreeBuilder_seen_total:
  assumes n: "length store < n"
  shows "\<exists>res seen'. targetTreeBuilder n (seenFetcher (map_of store)) seen = Some (res, seen')"
proof -
  let ?g = "map_of store"
  have fin: "finite (dom ?g)" by (rule finite_dom_map_of)
  have call: "\<exists>res seen' root'. getDelegatedTarget n (seenFetcher ?g) (seen1, root1) r1
                = Some (res, (seen', root'))" for seen1 :: "string list" and root1 r1
  proof -
    have "card (dom ?g - set seen1) \<le> card (dom ?g)"
      using fin by (intro card_mono) auto
    with card_dom_map_of [of store] n have "card (dom ?g - set seen1) < n" by simp
    from getDelegatedTarget_seen_total [OF fin this] show ?thesis by blast
  qed
  obtain targ err s1 where f: "seenFetcher ?g seen roleTargets = ((targ, err), s1)"
    by (metis prod.exhaust)
  show ?thesis
  proof (cases "err = None \<and> targ \<noteq> None")
    case False
    with f show ?thesis
      by (auto simp: targetTreeBuilder_def split: option.splits)
  next
    case True
    then obtain t where t: "targ = Some t" "err = None" by auto
    let ?root = "append_role \<lparr>Targets = t, paths = Map.empty, targetLookup = Map.empty\<rparr> roleTargets t"
    from targetTreeBuilder_loop_seen_total [where call = "getDelegatedTarget n (seenFetcher ?g)", OF call]
    obtain res seen' root' where
      "targetTreeBuilder_loop (getDelegatedTarget n (seenFetcher ?g)) (s1, ?root) (delegation_names t)
         = Some (res, (seen', root'))"
      by blast
    with f t show ?thesis
      by (auto simp: targetTreeBuilder_def split: outcome.splits option.splits)
  qed
qed

text \<open>A property of the fetcher's state that every fetch keeps holds when a run returns.\<close>

lemma getDelegatedTarget_loop_state_inv:
  assumes rec: "\<And>s root r res s' root'.
      K s \<Longrightarrow> recurse (s, root) r = Some (res, (s', root')) \<Longrightarrow> K s'"
  shows "K s \<Longrightarrow> getDelegatedTarget_loop recurse (s, root) names = Some (res, (s', root')) \<Longrightarrow> K s'"
proof (induction names arbitrary: s root)
  case Nil
  then show ?case by simp
next
  case (Cons name names)
  from Cons.prems(2) obtain res1 s1 root1 where r1: "recurse (s, root) name = Some (res1, (s1, root1))"
    by (auto split: option.splits)
  from rec [OF Cons.prems(1) r1] have k1: "K s1" .
  from Cons.prems(2) r1 Cons.IH [OF k1, of root1] k1 show ?case
    by (auto split: outcome.splits if_splits)
qed

lemma targetTreeBuilder_loop_state_inv:
  assumes rec: "\<And>s root r res s' root'.
      K s \<Longrightarrow> call (s, root) r = Some (res, (s', root')) \<Longrightarrow> K s'"
  shows "K s \<Longrightarrow> targetTreeBuilder_loop call (s, root) names = Some (res, (s', root')) \<Longrightarrow> K s'"
proof (induction names arbitrary: s root)
  case Nil
  then show ?case by simp
next
  case (Cons name names)
  from Cons.prems(2) obtain res1 s1 root1 where r1: "call (s, root) name = Some (res1, (s1, root1))"
    by (auto split: option.splits)
  from rec [OF Cons.prems(1) r1] have k1: "K s1" .
  from Cons.prems(2) r1 Cons.IH [OF k1, of root1] k1 show ?case
    by (auto split: outcome.splits if_splits)
qed

lemma getDelegatedTarget_state_inv:
  assumes step: "\<And>s name res s'. K s \<Longrightarrow> fetcher s name = (res, s') \<Longrightarrow> K s'"
  shows "K s \<Longrightarrow> getDelegatedTarget n fetcher (s, root) r = Some (res, (s', root')) \<Longrightarrow> K s'"
proof (induction n arbitrary: s root r res s' root')
  case 0
  then show ?case by simp
next
  case (Suc n)
  obtain targ err s1 where f: "fetcher s r = ((targ, err), s1)"
    by (metis prod.exhaust)
  from step [OF Suc.prems(1) f] have k1: "K s1" .
  show ?case
  proof (cases "err = None \<and> targ \<noteq> None")
    case False
    with Suc.prems(2) f k1 show ?thesis
      by (auto split: option.splits if_splits)
  next
    case True
    then obtain t where t: "targ = Some t" "err = None" by auto
    with Suc.prems(2) f have loop:
      "getDelegatedTarget_loop (getDelegatedTarget n fetcher) (s1, append_role root r t)
          (delegation_names t) = Some (res, (s', root'))"
      by simp
    show ?thesis
      by (rule getDelegatedTarget_loop_state_inv
            [where recurse = "getDelegatedTarget n fetcher" and K = K, OF _ k1 loop])
         (rule Suc.IH)
  qed
qed

lemma targetTreeBuilder_state_inv:
  assumes step: "\<And>s name res s'. K s \<Longrightarrow> fetcher s name = (res, s') \<Longrightarrow> K s'"
    and k: "K s" and run: "targetTreeBuilder n fetcher s = Some (res, s')"
  shows "K s'"
proof -
  obtain targ err s1 where f: "fetcher s roleTargets = ((targ, err), s1)"
    by (metis prod.exhaust)
  from step [OF k f] have k1: "K s1" .
  show ?thesis
  proof (cases "err = None \<and> targ \<noteq> None")
    case False
    with run f k1 show ?thesis
      by (auto simp: targetTreeBuilder_def split: option.splits)
  next
    case True
    then obtain t where t: "targ = Some t" "err = None" by auto
    let ?root = "append_role \<lparr>Targets = t, paths = Map.empty, targetLookup = Map.empty\<rparr> roleTargets t"
    from run f t obtain res1 root1 where
      loop: "targetTreeBuilder_loop (getDelegatedTarget n fetcher) (s1, ?root) (delegation_names t)
               = Some (res1, (s', root1))"
      by (auto simp: targetTreeBuilder_def split: option.splits outcome.splits)
    show ?thesis
      by (rule targetTreeBuilder_loop_state_inv
            [where call = "getDelegatedTarget n fetcher" and K = K, OF _ k1 loop])
         (rule getDelegatedTarget_state_inv [where K = K, OF step])
  qed
qed

lemma logged_seenFetcher_step:
  assumes k: "map fst (recorded log) = seen \<and> distinct seen"
    and f: "logged (seenFetcher g) (seen, log) name = (res, (seen', log'))"
  shows "map fst (recorded log') = seen' \<and> distinct seen'"
proof (cases "name \<in> set seen \<or> g name = None")
  case True
  then have "\<exists>e. seenFetcher g seen name = ((None, Some e), seen)"
    by (auto simp: seenFetcher_def)
  with f k show ?thesis
    by (auto simp: logged_def recorded_append recorded_def recorded1_def)
next
  case False
  then obtain t where "g name = Some t" "name \<notin> set seen" by auto
  then have "seenFetcher g seen name = ((Some t, None), seen @ [name])"
    by (simp add: seenFetcher_def)
  with f k \<open>name \<notin> set seen\<close> show ?thesis
    by (auto simp: logged_def recorded_append recorded_def recorded1_def)
qed

lemma targetLookup_replay:
  "dom (targetLookup (replay visits root)) = dom (targetLookup root) \<union> fst ` set visits"
proof (induction visits arbitrary: root)
  case Nil
  show ?case by (simp add: replay_def)
next
  case (Cons v visits)
  obtain name targ where v: "v = (name, targ)" by (cases v)
  have "replay (v # visits) root = replay visits (append_role root name targ)"
    by (simp add: replay_def v)
  with Cons.IH [of "append_role root name targ"] v show ?case
    by (auto simp: append_role_def)
qed

lemma Targets_replay: "Targets (replay visits root) = Targets root"
proof (induction visits arbitrary: root)
  case Nil
  show ?case by (simp add: replay_def)
next
  case (Cons v visits)
  obtain name targ where v: "v = (name, targ)" by (cases v)
  have "replay (v # visits) root = replay visits (append_role root name targ)"
    by (simp add: replay_def v)
  with Cons.IH [of "append_role root name targ"] show ?case
    by (simp add: append_role_def)
qed

text \<open>
  C4: Cycle termination and exactly-once visitation.  The fetcher reports
  \<^verbatim>\<open>errTargetSeen\<close> for a role it handed out before, over any finite store of role
  metadata, cyclic or not.  The resolution returns: with every bound on the depth above
  the number of entries of the store it returns the same result.  The roles fetched and
  recorded, in order, are the list \<open>seen\<close>, in which no role occurs twice, and when a
  \<^verbatim>\<open>RootTarget\<close> is returned the keys of its role lookup are exactly these roles.
\<close>

theorem cycle_terminates_visits_once:
  "\<exists>res seen log.
      (\<forall>n. length store < n \<longrightarrow>
          targetTreeBuilder n (seenFetcher (map_of store)) [] = Some (res, seen)
        \<and> targetTreeBuilder n (logged (seenFetcher (map_of store))) ([], []) = Some (res, (seen, log)))
    \<and> map fst (recorded log) = seen \<and> distinct seen
    \<and> (\<forall>rt. res = Returns (Inr rt) \<longrightarrow> dom (targetLookup rt) = set seen)"
proof -
  let ?f = "seenFetcher (map_of store)"
  let ?N = "Suc (length store)"
  from targetTreeBuilder_seen_total [of store ?N "[]"]
  obtain res seen where r0: "targetTreeBuilder ?N ?f [] = Some (res, seen)" by auto
  from logged_run_exists [OF r0] obtain log
    where l0: "targetTreeBuilder ?N (logged ?f) ([], []) = Some (res, (seen, log))" by blast
  have runs: "targetTreeBuilder n ?f [] = Some (res, seen)
        \<and> targetTreeBuilder n (logged ?f) ([], []) = Some (res, (seen, log))" if "length store < n" for n
  proof -
    from that have "?N \<le> n" by simp
    from targetTreeBuilder_mono [OF r0 this] targetTreeBuilder_mono [OF l0 this] show ?thesis by simp
  qed
  have "(\<lambda>(seen, log). map fst (recorded log) = seen \<and> distinct seen) (seen, log)"
  proof (rule targetTreeBuilder_state_inv
           [where K = "\<lambda>(seen, log). map fst (recorded log) = seen \<and> distinct seen"
              and fetcher = "logged ?f" and s = "([], [])", OF _ _ l0])
    fix s :: "string list \<times> 'a fetch_log" and name res s'
    assume "(case s of (seen, log) \<Rightarrow> map fst (recorded log) = seen \<and> distinct seen)"
      and "logged ?f s name = (res, s')"
    then show "(case s' of (seen, log) \<Rightarrow> map fst (recorded log) = seen \<and> distinct seen)"
      using logged_seenFetcher_step [of "snd s" "fst s" "map_of store" name res "fst s'" "snd s'"]
      by (simp add: case_prod_beta)
  next
    show "(case ([], []) of (seen, log) \<Rightarrow> map fst (recorded log) = seen \<and> distinct seen)"
      by (simp add: recorded_Nil)
  qed
  then have k: "map fst (recorded log) = seen" "distinct seen" by simp_all
  have "dom (targetLookup rt) = set seen" if "res = Returns (Inr rt)" for rt
  proof -
    from targetTreeBuilder_logged [OF l0] that obtain t0
      where "rt = replay (recorded log) \<lparr>Targets = t0, paths = Map.empty, targetLookup = Map.empty\<rparr>"
      by blast
    then have "dom (targetLookup rt) = fst ` set (recorded log)"
      by (simp add: targetLookup_replay)
    with k(1) show ?thesis by (metis set_map)
  qed
  with runs k show ?thesis by blast
qed

theorem cycle_terminates_visits_once_witness:
  "length cycle_store < 4
   \<and> (\<exists>rt. targetTreeBuilder 4 (seenFetcher (map_of cycle_store)) []
              = Some (Returns (Inr rt), [''targets'', ''A'', ''B''])
          \<and> dom (targetLookup rt) = {''targets'', ''A'', ''B''})
   \<and> distinct [''targets'', ''A'', ''B'']"
proof -
  have len: "length cycle_store < 4" by (simp add: cycle_store_def)
  have "\<exists>rt. targetTreeBuilder 4 (seenFetcher (map_of cycle_store)) []
              = Some (Returns (Inr rt), [''targets'', ''A'', ''B''])"
    by (simp add: run_simps cycle_store_def)
  then obtain rt where run: "targetTreeBuilder 4 (seenFetcher (map_of cycle_store)) []
              = Some (Returns (Inr rt), [''targets'', ''A'', ''B''])" ..
  from cycle_terminates_visits_once [of cycle_store] obtain res seen
    where all: "\<forall>n. length cycle_store < n \<longrightarrow>
          targetTreeBuilder n (seenFetcher (map_of cycle_store)) [] = Some (res, seen)"
      and keys: "\<forall>rt. res = Returns (Inr rt) \<longrightarrow> dom (targetLookup rt) = set seen"
    by blast
  from all len have "targetTreeBuilder 4 (seenFetcher (map_of cycle_store)) [] = Some (res, seen)"
    by blast
  with run have "res = Returns (Inr rt)" "seen = [''targets'', ''A'', ''B'']" by simp_all
  with keys have "dom (targetLookup rt) = {''targets'', ''A'', ''B''}" by auto
  with len run show ?thesis by auto
qed

section \<open>Path precedence\<close>

text \<open>
  With the fetcher over a store, a run that returns a tree has fetched and recorded the
  roles in the order of the preorder depth-first traversal of the specification.
\<close>

lemma getDelegatedTarget_loop_preorder:
  assumes rec: "\<And>seen root r res seen' root'.
      recurse (seen, root) r = Some (res, (seen', root')) \<Longrightarrow>
      res = Returns None \<or> res = Returns (Some ErrTargetSeen) \<Longrightarrow> seen' = P seen r"
  shows "getDelegatedTarget_loop recurse (seen, root) names = Some (Returns None, (seen', root')) \<Longrightarrow>
      seen' = fold (\<lambda>d v. P v d) names seen"
proof (induction names arbitrary: seen root)
  case Nil
  then show ?case by simp
next
  case (Cons name names)
  from Cons.prems obtain res1 seen1 root1
    where r1: "recurse (seen, root) name = Some (res1, (seen1, root1))"
    by (auto split: option.splits)
  show ?case
  proof (cases "res1 = Returns None \<or> res1 = Returns (Some ErrTargetSeen)")
    case True
    with Cons.prems r1 have
      "getDelegatedTarget_loop recurse (seen1, root1) names = Some (Returns None, (seen', root'))"
      by auto
    from Cons.IH [OF this] rec [OF r1 True] show ?thesis by simp
  next
    case False
    with Cons.prems r1 show ?thesis
      by (auto split: outcome.splits if_splits)
  qed
qed

lemma targetTreeBuilder_loop_preorder:
  assumes rec: "\<And>seen root r res seen' root'.
      call (seen, root) r = Some (res, (seen', root')) \<Longrightarrow>
      res = Returns None \<or> res = Returns (Some ErrTargetSeen) \<Longrightarrow> seen' = P seen r"
  shows "targetTreeBuilder_loop call (seen, root) names = Some (Returns None, (seen', root')) \<Longrightarrow>
      seen' = fold (\<lambda>d v. P v d) names seen"
proof (induction names arbitrary: seen root)
  case Nil
  then show ?case by simp
next
  case (Cons name names)
  from Cons.prems obtain seen1 root1
    where r1: "call (seen, root) name = Some (Returns None, (seen1, root1))"
      and rest: "targetTreeBuilder_loop call (seen1, root1) names = Some (Returns None, (seen', root'))"
    by (auto split: option.splits outcome.splits if_splits)
  from Cons.IH [OF rest] rec [OF r1] show ?case by simp
qed

lemma getDelegatedTarget_loop_never_seen:
  "getDelegatedTarget_loop recurse st names = Some (res, st') \<Longrightarrow> res \<noteq> Returns (Some ErrTargetSeen)"
proof (induction names arbitrary: st)
  case Nil
  then show ?case by auto
next
  case (Cons name names)
  from Cons.prems obtain res1 st1 where r1: "recurse st name = Some (res1, st1)"
    by (auto split: option.splits)
  with Cons.prems Cons.IH [of st1] show ?case
    by (auto split: outcome.splits if_splits)
qed

lemma getDelegatedTarget_preorder:
  "getDelegatedTarget n (seenFetcher g) (seen, root) r = Some (res, (seen', root')) \<Longrightarrow>
   res = Returns None \<or> res = Returns (Some ErrTargetSeen) \<Longrightarrow>
   seen' = spec_preorder n g seen r"
proof (induction n arbitrary: seen root r res seen' root')
  case 0
  then show ?case by simp
next
  case (Suc n)
  show ?case
  proof (cases "r \<in> set seen")
    case True
    then have "seenFetcher g seen r = ((None, Some ErrTargetSeen), seen)"
      by (simp add: seenFetcher_def)
    with Suc.prems(1) True show ?thesis by simp
  next
    case False
    show ?thesis
    proof (cases "g r")
      case None
      with False have "seenFetcher g seen r = ((None, Some (ErrExternal r)), seen)"
        by (simp add: seenFetcher_def)
      with Suc.prems show ?thesis by auto
    next
      case (Some t)
      with False have f: "seenFetcher g seen r = ((Some t, None), seen @ [r])"
        by (simp add: seenFetcher_def)
      with Suc.prems(1) have loop:
        "getDelegatedTarget_loop (getDelegatedTarget n (seenFetcher g))
            (seen @ [r], append_role root r t) (delegation_names t) = Some (res, (seen', root'))"
        by simp
      from getDelegatedTarget_loop_never_seen [OF loop] Suc.prems(2) have "res = Returns None"
        by simp
      with loop have "seen' = fold (\<lambda>d v. spec_preorder n g v d) (delegation_names t) (seen @ [r])"
        by (intro getDelegatedTarget_loop_preorder
              [where recurse = "getDelegatedTarget n (seenFetcher g)" and P = "spec_preorder n g"])
           (auto intro: Suc.IH)
      with False Some show ?thesis by simp
    qed
  qed
qed

lemma targetTreeBuilder_preorder:
  assumes run: "targetTreeBuilder n (seenFetcher g) [] = Some (Returns (Inr rt), seen)"
  shows "seen = spec_preorder (Suc n) g [] roleTargets"
proof (cases "g roleTargets")
  case None
  then have "seenFetcher g [] roleTargets = ((None, Some (ErrExternal roleTargets)), [])"
    by (simp add: seenFetcher_def)
  with run show ?thesis by (simp add: targetTreeBuilder_def)
next
  case (Some t)
  then have f: "seenFetcher g [] roleTargets = ((Some t, None), [roleTargets])"
    by (simp add: seenFetcher_def)
  let ?root = "append_role \<lparr>Targets = t, paths = Map.empty, targetLookup = Map.empty\<rparr> roleTargets t"
  from run f have loop:
    "targetTreeBuilder_loop (getDelegatedTarget n (seenFetcher g)) ([roleTargets], ?root) (delegation_names t)
       = Some (Returns None, (seen, rt))"
    by (auto simp: targetTreeBuilder_def split: option.splits outcome.splits)
  then have "seen = fold (\<lambda>d v. spec_preorder n g v d) (delegation_names t) [roleTargets]"
    by (intro targetTreeBuilder_loop_preorder
          [where call = "getDelegatedTarget n (seenFetcher g)" and P = "spec_preorder n g"])
       (auto intro: getDelegatedTarget_preorder)
  with Some show ?thesis by simp
qed

text \<open>The preorder of a store does not depend on the bound, once above the size of the store.\<close>

lemma fold_grows:
  assumes "\<And>v d. set v \<subseteq> set (f d v)"
  shows "set v \<subseteq> set (fold f ds v)"
proof (induction ds arbitrary: v)
  case Nil
  show ?case by simp
next
  case (Cons d ds)
  from assms [of v d] Cons.IH [of "f d v"] show ?case by auto
qed

lemma spec_preorder_grows: "set visited \<subseteq> set (spec_preorder n g visited r)"
proof (induction n arbitrary: visited r)
  case 0
  show ?case by simp
next
  case (Suc n)
  show ?case
  proof (cases "r \<in> set visited \<or> g r = None")
    case True
    then show ?thesis by auto
  next
    case False
    then obtain t where t: "g r = Some t" and fresh: "r \<notin> set visited" by auto
    have "set (visited @ [r]) \<subseteq>
            set (fold (\<lambda>d v. spec_preorder n g v d) (delegation_names t) (visited @ [r]))"
      by (rule fold_grows) (rule Suc.IH)
    with t fresh show ?thesis by auto
  qed
qed

lemma fold_agree:
  assumes agree: "\<And>v d. set v0 \<subseteq> set v \<Longrightarrow> f d v = f' d v"
    and grows: "\<And>v d. set v \<subseteq> set (f d v)"
  shows "set v0 \<subseteq> set v \<Longrightarrow> fold f ds v = fold f' ds v"
proof (induction ds arbitrary: v)
  case Nil
  show ?case by simp
next
  case (Cons d ds)
  from grows [of v d] Cons.prems have "set v0 \<subseteq> set (f d v)" by auto
  from Cons.IH [OF this] agree [OF Cons.prems, of d] show ?case by simp
qed

lemma spec_preorder_stable:
  "finite (dom g) \<Longrightarrow> card (dom g - set visited) < n \<Longrightarrow> card (dom g - set visited) < m \<Longrightarrow>
     spec_preorder n g visited r = spec_preorder m g visited r"
proof (induction n arbitrary: m visited r)
  case 0
  then show ?case by simp
next
  case (Suc n)
  from Suc.prems(3) obtain m' where m: "m = Suc m'" by (cases m) auto
  show ?case
  proof (cases "r \<in> set visited \<or> g r = None")
    case True
    with m show ?thesis by auto
  next
    case False
    then obtain t where t: "g r = Some t" and fresh: "r \<notin> set visited" by auto
    from t fresh have "dom g - set (visited @ [r]) \<subset> dom g - set visited" by auto
    with Suc.prems(1) have "card (dom g - set (visited @ [r])) < card (dom g - set visited)"
      by (intro psubset_card_mono) auto
    with Suc.prems(2,3) m have small: "card (dom g - set (visited @ [r])) < n"
      "card (dom g - set (visited @ [r])) < m'" by simp_all
    have "fold (\<lambda>d v. spec_preorder n g v d) (delegation_names t) (visited @ [r])
        = fold (\<lambda>d v. spec_preorder m' g v d) (delegation_names t) (visited @ [r])"
    proof (rule fold_agree [where ?v0.0 = "visited @ [r]"])
      fix v :: "string list" and d
      assume sub: "set (visited @ [r]) \<subseteq> set v"
      then have "dom g - set v \<subseteq> dom g - set (visited @ [r])" by auto
      with Suc.prems(1) have "card (dom g - set v) \<le> card (dom g - set (visited @ [r]))"
        by (intro card_mono) auto
      with small have "card (dom g - set v) < n" "card (dom g - set v) < m'" by simp_all
      from Suc.IH [OF Suc.prems(1) this]
      show "spec_preorder n g v d = spec_preorder m' g v d" .
    next
      fix v :: "string list" and d
      show "set v \<subseteq> set (spec_preorder n g v d)" by (rule spec_preorder_grows)
    qed simp
    with t fresh m show ?thesis by simp
  qed
qed

lemma preorder_of_stable:
  assumes "length store < n"
  shows "spec_preorder (Suc n) (map_of store) [] roleTargets = preorder_of store"
proof -
  have fin: "finite (dom (map_of store))" by (rule finite_dom_map_of)
  have "card (dom (map_of store) - set []) \<le> length store"
    using card_dom_map_of [of store] by simp
  with assms have "card (dom (map_of store) - set []) < Suc n"
    "card (dom (map_of store) - set []) < Suc (Suc (length store))" by simp_all
  from spec_preorder_stable [OF fin this] show ?thesis
    by (simp add: preorder_of_def)
qed

text \<open>Recording roles one after another leaves each path with its first claim.\<close>

lemma paths_replay:
  "paths (replay visits root) P =
     (case paths root P of Some f \<Rightarrow> Some f | None \<Rightarrow> first_claim P visits)"
proof (induction visits arbitrary: root)
  case Nil
  show ?case by (simp add: replay_def first_claim_def split: option.splits)
next
  case (Cons v visits)
  obtain name targ where v: "v = (name, targ)" by (cases v)
  have "replay (v # visits) root = replay visits (append_role root name targ)"
    by (simp add: replay_def v)
  with Cons.IH [of "append_role root name targ"] v show ?case
    by (auto simp: append_role_def map_add_def first_claim_def split: option.splits)
qed

lemma logged_seenFetcher_step_store:
  assumes k: "map fst (recorded log) = seen \<and> list_all (\<lambda>(name, targ). g name = Some targ) (recorded log)"
    and f: "logged (seenFetcher g) (seen, log) name = (res, (seen', log'))"
  shows "map fst (recorded log') = seen' \<and> list_all (\<lambda>(name, targ). g name = Some targ) (recorded log')"
proof (cases "name \<in> set seen \<or> g name = None")
  case True
  then have "\<exists>e. seenFetcher g seen name = ((None, Some e), seen)"
    by (auto simp: seenFetcher_def)
  with f k show ?thesis
    by (auto simp: logged_def recorded_append recorded_def recorded1_def)
next
  case False
  then obtain t where "g name = Some t" "name \<notin> set seen" by auto
  then have "seenFetcher g seen name = ((Some t, None), seen @ [name])"
    by (simp add: seenFetcher_def)
  with f k \<open>g name = Some t\<close> show ?thesis
    by (auto simp: logged_def recorded_append recorded_def recorded1_def)
qed

lemma first_claim_declared:
  "list_all (\<lambda>(name, targ). g name = Some targ) visits \<Longrightarrow>
     first_claim P visits = first_declared g P (map fst visits)"
proof (induction visits)
  case Nil
  show ?case by (simp add: first_claim_def first_declared_def)
next
  case (Cons v visits)
  obtain name targ where v: "v = (name, targ)" by (cases v)
  with Cons.prems have g: "g name = Some targ"
    and rest: "list_all (\<lambda>(name, targ). g name = Some targ) visits" by simp_all
  from Cons.IH [OF rest] v g show ?case
    by (auto simp: first_claim_def first_declared_def declared_def)
qed

lemma first_declared_nth:
  assumes "i < length order" and "declared g (order ! i) P \<noteq> None"
    and "\<forall>k<i. declared g (order ! k) P = None"
  shows "first_declared g P order = declared g (order ! i) P"
proof -
  have "find (\<lambda>r. declared g r P \<noteq> None) order = Some (order ! i)"
    unfolding find_Some_iff using assms by (auto intro!: exI [of _ i])
  then show ?thesis
    by (simp add: first_declared_def)
qed

text \<open>
  C3 (as stated, refuted): in the diamond the preorder is \<open>targets\<close>, \<open>A\<close>, \<open>C\<close>, \<open>B\<close>.  The
  roles \<open>C\<close> and \<open>B\<close> both declare \<open>/p\<close>, and \<open>C\<close> is discovered before \<open>B\<close>, yet the returned
  tree resolves \<open>/p\<close> to the entry of \<open>A\<close>, discovered before both, and not to the entry of
  \<open>C\<close>.
\<close>

theorem first_claimant_not_always_X:
  "preorder_of diamond_store = [''targets'', ''A'', ''C'', ''B'']
   \<and> declared (map_of diamond_store) ''C'' ''/p'' = Some 3
   \<and> declared (map_of diamond_store) ''B'' ''/p'' = Some 2
   \<and> resolved (targetTreeBuilder 5 (seenFetcher (map_of diamond_store)) []) ''/p'' = Some 1"
  by (simp add: preorder_of_def declared_def resolved_def run_simps diamond_store_def)

text \<open>
  C3 (amended): First-visit-wins path precedence.  For every delegation graph, given as
  a finite store of role metadata and fetched with the fetcher that reports
  \<^verbatim>\<open>errTargetSeen\<close> for a role handed out before, the resolution returns, the same for
  every bound above the size of the store.  When it returns a \<^verbatim>\<open>RootTarget\<close>, the roles
  it fetched and recorded are, in order, the preorder depth-first traversal of the
  graph (delegations in declared order, each child traversed in full before the next
  sibling), and the path-ownership map resolves a path \<open>P\<close> to the entry of the first
  role in that order that declares \<open>P\<close>.  So for roles \<open>X\<close> and \<open>Y\<close> that both declare \<open>P\<close>,
  with \<open>X\<close> before \<open>Y\<close> in preorder and no role before \<open>X\<close> declaring \<open>P\<close>, the map resolves
  \<open>P\<close> to the entry of \<open>X\<close>; later claims are superseded.  The method
  \<^verbatim>\<open>RootTarget.append\<close> is modelled from the specification.
\<close>

theorem first_visit_wins:
  "\<exists>res seen.
      (\<forall>n. length store < n \<longrightarrow>
          targetTreeBuilder n (seenFetcher (map_of store)) [] = Some (res, seen))
    \<and> (\<forall>rt. res = Returns (Inr rt) \<longrightarrow>
          seen = preorder_of store
        \<and> paths rt P = first_declared (map_of store) P (preorder_of store)
        \<and> (\<forall>i j. i < j \<and> j < length (preorder_of store)
               \<and> declared (map_of store) (preorder_of store ! i) P \<noteq> None
               \<and> declared (map_of store) (preorder_of store ! j) P \<noteq> None
               \<and> (\<forall>k<i. declared (map_of store) (preorder_of store ! k) P = None)
              \<longrightarrow> paths rt P = declared (map_of store) (preorder_of store ! i) P))"
proof -
  let ?g = "map_of store"
  let ?f = "seenFetcher ?g"
  let ?N = "Suc (length store)"
  from targetTreeBuilder_seen_total [of store ?N "[]"]
  obtain res seen where r0: "targetTreeBuilder ?N ?f [] = Some (res, seen)" by auto
  have runs: "targetTreeBuilder n ?f [] = Some (res, seen)" if "length store < n" for n
  proof -
    from that have "?N \<le> n" by simp
    from targetTreeBuilder_mono [OF r0 this] show ?thesis .
  qed
  have tree: "seen = preorder_of store
        \<and> paths rt P = first_declared ?g P (preorder_of store)
        \<and> (\<forall>i j. i < j \<and> j < length (preorder_of store)
               \<and> declared ?g (preorder_of store ! i) P \<noteq> None
               \<and> declared ?g (preorder_of store ! j) P \<noteq> None
               \<and> (\<forall>k<i. declared ?g (preorder_of store ! k) P = None)
              \<longrightarrow> paths rt P = declared ?g (preorder_of store ! i) P)"
    if res: "res = Returns (Inr rt)" for rt
  proof -
    from r0 res have "seen = spec_preorder (Suc ?N) ?g [] roleTargets"
      by (intro targetTreeBuilder_preorder) simp
    then have order: "seen = preorder_of store" by (simp add: preorder_of_def)
    from logged_run_exists [OF r0] obtain log
      where l0: "targetTreeBuilder ?N (logged ?f) ([], []) = Some (res, (seen, log))" by blast
    have "(\<lambda>(seen, log). map fst (recorded log) = seen
             \<and> list_all (\<lambda>(name, targ). ?g name = Some targ) (recorded log)) (seen, log)"
    proof (rule targetTreeBuilder_state_inv
             [where K = "\<lambda>(seen, log). map fst (recorded log) = seen
                            \<and> list_all (\<lambda>(name, targ). ?g name = Some targ) (recorded log)"
                and fetcher = "logged ?f" and s = "([], [])", OF _ _ l0])
      fix s :: "string list \<times> 'a fetch_log" and name res s'
      assume "(case s of (seen, log) \<Rightarrow> map fst (recorded log) = seen
                 \<and> list_all (\<lambda>(name, targ). ?g name = Some targ) (recorded log))"
        and "logged ?f s name = (res, s')"
      then show "(case s' of (seen, log) \<Rightarrow> map fst (recorded log) = seen
                 \<and> list_all (\<lambda>(name, targ). ?g name = Some targ) (recorded log))"
        using logged_seenFetcher_step_store [of "snd s" "fst s" ?g name res "fst s'" "snd s'"]
        by (simp add: case_prod_beta)
    next
      show "(case ([], []) of (seen, log) \<Rightarrow> map fst (recorded log) = seen
                 \<and> list_all (\<lambda>(name, targ). ?g name = Some targ) (recorded log))"
        by (simp add: recorded_Nil)
    qed
    then have k: "map fst (recorded log) = seen"
      "list_all (\<lambda>(name, targ). ?g name = Some targ) (recorded log)" by simp_all
    from targetTreeBuilder_logged [OF l0] res obtain t0
      where "rt = replay (recorded log) \<lparr>Targets = t0, paths = Map.empty, targetLookup = Map.empty\<rparr>"
      by blast
    then have "paths rt P = first_claim P (recorded log)"
      by (simp add: paths_replay)
    with first_claim_declared [OF k(2), of P] k(1) order
    have fc: "paths rt P = first_declared ?g P (preorder_of store)" by simp
    have "paths rt P = declared ?g (preorder_of store ! i) P"
      if "i < j" "j < length (preorder_of store)" "declared ?g (preorder_of store ! i) P \<noteq> None"
         "\<forall>k<i. declared ?g (preorder_of store ! k) P = None" for i j
    proof -
      from that have "first_declared ?g P (preorder_of store) = declared ?g (preorder_of store ! i) P"
        by (intro first_declared_nth) auto
      with fc show ?thesis by simp
    qed
    with order fc show ?thesis by blast
  qed
  from runs tree show ?thesis by blast
qed

theorem first_visit_wins_witness:
  "length siblings_store < 5
   \<and> (\<exists>rt. targetTreeBuilder 5 (seenFetcher (map_of siblings_store)) []
              = Some (Returns (Inr rt), [''targets'', ''targets/a'', ''targets/b''])
          \<and> preorder_of siblings_store = [''targets'', ''targets/a'', ''targets/b'']
          \<and> paths rt ''/x'' = Some 1)
   \<and> length diamond_store < 5
   \<and> (\<exists>rt. targetTreeBuilder 5 (seenFetcher (map_of diamond_store)) []
              = Some (Returns (Inr rt), [''targets'', ''A'', ''C'', ''B''])
          \<and> preorder_of diamond_store = [''targets'', ''A'', ''C'', ''B'']
          \<and> paths rt ''/q'' = Some 5)"
proof (intro conjI)
  show len: "length siblings_store < 5" by (simp add: siblings_store_def)
  have "\<exists>rt. targetTreeBuilder 5 (seenFetcher (map_of siblings_store)) []
              = Some (Returns (Inr rt), [''targets'', ''targets/a'', ''targets/b''])"
    by (simp add: run_simps siblings_store_def)
  then obtain rt where run: "targetTreeBuilder 5 (seenFetcher (map_of siblings_store)) []
              = Some (Returns (Inr rt), [''targets'', ''targets/a'', ''targets/b''])" ..
  from first_visit_wins [of siblings_store "''/x''"] obtain res seen
    where all: "\<forall>n. length siblings_store < n \<longrightarrow>
          targetTreeBuilder n (seenFetcher (map_of siblings_store)) [] = Some (res, seen)"
      and tree: "\<forall>rt. res = Returns (Inr rt) \<longrightarrow>
          seen = preorder_of siblings_store
        \<and> paths rt ''/x'' = first_declared (map_of siblings_store) ''/x'' (preorder_of siblings_store)
        \<and> (\<forall>i j. i < j \<and> j < length (preorder_of siblings_store)
               \<and> declared (map_of siblings_store) (preorder_of siblings_store ! i) ''/x'' \<noteq> None
               \<and> declared (map_of siblings_store) (preorder_of siblings_store ! j) ''/x'' \<noteq> None
               \<and> (\<forall>k<i. declared (map_of siblings_store) (preorder_of siblings_store ! k) ''/x'' = None)
              \<longrightarrow> paths rt ''/x'' = declared (map_of siblings_store) (preorder_of siblings_store ! i) ''/x'')"
    by (elim exE conjE) (rule that)
  from all [rule_format, OF len] run
  have res: "res = Returns (Inr rt)" and seen: "seen = [''targets'', ''targets/a'', ''targets/b'']"
    by simp_all
  note facts = tree [rule_format, OF res]
  from facts [THEN conjunct1] seen have order: "preorder_of siblings_store = [''targets'', ''targets/a'', ''targets/b'']"
    by simp
  have "paths rt ''/x'' = declared (map_of siblings_store) (preorder_of siblings_store ! 1) ''/x''"
  proof (rule facts [THEN conjunct2, THEN conjunct2, rule_format, of 1 2])
    show "1 < (2::nat) \<and> 2 < length (preorder_of siblings_store)
               \<and> declared (map_of siblings_store) (preorder_of siblings_store ! 1) ''/x'' \<noteq> None
               \<and> declared (map_of siblings_store) (preorder_of siblings_store ! 2) ''/x'' \<noteq> None
               \<and> (\<forall>k<1. declared (map_of siblings_store) (preorder_of siblings_store ! k) ''/x'' = None)"
      unfolding order by (simp add: declared_def siblings_store_def role_of_def less_Suc_eq eval_nat_numeral)
  qed
  then have val: "paths rt ''/x'' = Some 1"
    unfolding order by (simp add: declared_def siblings_store_def role_of_def)
  show "\<exists>rt. targetTreeBuilder 5 (seenFetcher (map_of siblings_store)) []
              = Some (Returns (Inr rt), [''targets'', ''targets/a'', ''targets/b''])
          \<and> preorder_of siblings_store = [''targets'', ''targets/a'', ''targets/b'']
          \<and> paths rt ''/x'' = Some 1"
    using run order val by (intro exI [of _ rt] conjI)
next
  show len: "length diamond_store < 5" by (simp add: diamond_store_def)
  have "\<exists>rt. targetTreeBuilder 5 (seenFetcher (map_of diamond_store)) []
              = Some (Returns (Inr rt), [''targets'', ''A'', ''C'', ''B''])"
    by (simp add: run_simps diamond_store_def)
  then obtain rt where run: "targetTreeBuilder 5 (seenFetcher (map_of diamond_store)) []
              = Some (Returns (Inr rt), [''targets'', ''A'', ''C'', ''B''])" ..
  from first_visit_wins [of diamond_store "''/q''"] obtain res seen
    where all: "\<forall>n. length diamond_store < n \<longrightarrow>
          targetTreeBuilder n (seenFetcher (map_of diamond_store)) [] = Some (res, seen)"
      and tree: "\<forall>rt. res = Returns (Inr rt) \<longrightarrow>
          seen = preorder_of diamond_store
        \<and> paths rt ''/q'' = first_declared (map_of diamond_store) ''/q'' (preorder_of diamond_store)
        \<and> (\<forall>i j. i < j \<and> j < length (preorder_of diamond_store)
               \<and> declared (map_of diamond_store) (preorder_of diamond_store ! i) ''/q'' \<noteq> None
               \<and> declared (map_of diamond_store) (preorder_of diamond_store ! j) ''/q'' \<noteq> None
               \<and> (\<forall>k<i. declared (map_of diamond_store) (preorder_of diamond_store ! k) ''/q'' = None)
              \<longrightarrow> paths rt ''/q'' = declared (map_of diamond_store) (preorder_of diamond_store ! i) ''/q'')"
    by (elim exE conjE) (rule that)
  from all [rule_format, OF len] run
  have res: "res = Returns (Inr rt)" and seen: "seen = [''targets'', ''A'', ''C'', ''B'']"
    by simp_all
  note facts = tree [rule_format, OF res]
  from facts [THEN conjunct1] seen have order: "preorder_of diamond_store = [''targets'', ''A'', ''C'', ''B'']"
    by simp
  have "paths rt ''/q'' = declared (map_of diamond_store) (preorder_of diamond_store ! 2) ''/q''"
  proof (rule facts [THEN conjunct2, THEN conjunct2, rule_format, of 2 3])
    show "2 < (3::nat) \<and> 3 < length (preorder_of diamond_store)
               \<and> declared (map_of diamond_store) (preorder_of diamond_store ! 2) ''/q'' \<noteq> None
               \<and> declared (map_of diamond_store) (preorder_of diamond_store ! 3) ''/q'' \<noteq> None
               \<and> (\<forall>k<2. declared (map_of diamond_store) (preorder_of diamond_store ! k) ''/q'' = None)"
      unfolding order by (simp add: declared_def diamond_store_def role_of_def less_Suc_eq eval_nat_numeral)
  qed
  then have val: "paths rt ''/q'' = Some 5"
    unfolding order by (simp add: declared_def diamond_store_def role_of_def)
  show "\<exists>rt. targetTreeBuilder 5 (seenFetcher (map_of diamond_store)) []
              = Some (Returns (Inr rt), [''targets'', ''A'', ''C'', ''B''])
          \<and> preorder_of diamond_store = [''targets'', ''A'', ''C'', ''B'']
          \<and> paths rt ''/q'' = Some 5"
    using run order val by (intro exI [of _ rt] conjI)
qed

section \<open>A role revisited at the top level\<close>

text \<open>
  C2: Top-level revisit tolerance.  On the graph where the top-level role delegates to
  \<open>A\<close> and \<open>B\<close> and \<open>A\<close> delegates to \<open>B\<close>, the fetch of \<open>B\<close> for the top-level role reports
  \<^verbatim>\<open>errTargetSeen\<close>: \<^verbatim>\<open>targetTreeBuilder\<close> returns \<^verbatim>\<open>errTargetSeen\<close> as the error of
  the resolution and no tree, where the claim says the revisit is skipped.  The loop of
  \<^verbatim>\<open>getDelegatedTarget\<close> skips it; the loop of \<^verbatim>\<open>targetTreeBuilder\<close> does not.
\<close>

theorem top_level_revisit_fails:
  "targetTreeBuilder 3 (seenFetcher top_revisit_graph) []
     = Some (Returns (Inl ErrTargetSeen), [''targets'', ''A'', ''B''])"
  by (simp add: run_simps top_revisit_graph_def)

section \<open>The delegation cap\<close>

text \<open>
  For every fetcher, a resolution that returns a tree has fetched and recorded the
  top-level role and at least one role for each of its delegations: no count of visited
  roles stops the loop of \<^verbatim>\<open>targetTreeBuilder\<close>.
\<close>

lemma getDelegatedTarget_success_records:
  assumes run: "getDelegatedTarget n (logged fetcher) ((s, log), root) r
                  = Some (Returns None, ((s', log'), root'))"
  shows "length (recorded log) < length (recorded log')"
proof (cases n)
  case 0
  with run show ?thesis by simp
next
  case (Suc m)
  obtain targ err s1 where f: "fetcher s r = ((targ, err), s1)"
    by (metis prod.exhaust)
  from run Suc f obtain t where t: "targ = Some t" "err = None"
    by (auto simp: logged_def split: option.splits if_splits)
  with run Suc f have loop:
    "getDelegatedTarget_loop (getDelegatedTarget m (logged fetcher))
        ((s1, log @ [(r, (Some t, None))]), append_role root r t) (delegation_names t)
      = Some (Returns None, ((s', log'), root'))"
    by (simp add: logged_def)
  have "\<exists>ext. log' = (log @ [(r, (Some t, None))]) @ ext \<and> shape (Returns None) ext
          \<and> Returns None \<noteq> Returns (Some ErrTargetSeen)
          \<and> root' = replay (recorded ext) (append_role root r t)"
  proof (rule getDelegatedTarget_loop_logged
            [where recurse = "getDelegatedTarget m (logged fetcher)", OF _ loop])
    fix s0 log0 root0 r0 res0 s'' log'' root''
    assume "getDelegatedTarget m (logged fetcher) ((s0, log0), root0) r0
              = Some (res0, ((s'', log''), root''))"
    then show "\<exists>ext. log'' = log0 @ ext \<and> shape res0 ext \<and> root'' = replay (recorded ext) root0"
      by (rule getDelegatedTarget_logged)
  qed
  then obtain ext where "log' = (log @ [(r, (Some t, None))]) @ ext" by blast
  then show ?thesis
    by (simp add: recorded_append recorded_def recorded1_def)
qed

lemma targetTreeBuilder_loop_success_records:
  assumes call: "\<And>s log root r s' log' root'.
      call ((s, log), root) r = Some (Returns None, ((s', log'), root')) \<Longrightarrow>
      length (recorded log) < length (recorded log')"
  shows "targetTreeBuilder_loop call ((s, log), root) names = Some (Returns None, ((s', log'), root')) \<Longrightarrow>
      length (recorded log) + length names \<le> length (recorded log')"
proof (induction names arbitrary: s log root)
  case Nil
  then show ?case by simp
next
  case (Cons name names)
  from Cons.prems obtain s1 log1 root1
    where r1: "call ((s, log), root) name = Some (Returns None, ((s1, log1), root1))"
      and rest: "targetTreeBuilder_loop call ((s1, log1), root1) names
                   = Some (Returns None, ((s', log'), root'))"
    by (auto split: option.splits outcome.splits if_splits)
  from call [OF r1] Cons.IH [OF rest] show ?case by simp
qed

lemma every_top_level_delegation_fetched:
  assumes run: "targetTreeBuilder n (logged fetcher) (s, []) = Some (Returns (Inr rt), (s', log))"
  shows "Suc (length (delegation_names (Targets rt))) \<le> length (recorded log)"
proof -
  obtain targ err s1 where f: "fetcher s roleTargets = ((targ, err), s1)"
    by (metis prod.exhaust)
  from run f obtain t where t: "targ = Some t" "err = None"
    by (auto simp: targetTreeBuilder_def logged_def split: option.splits)
  let ?init = "\<lparr>Targets = t, paths = Map.empty, targetLookup = Map.empty\<rparr>"
  from run f t have
    loop: "targetTreeBuilder_loop (getDelegatedTarget n (logged fetcher))
               ((s1, [(roleTargets, (Some t, None))]), append_role ?init roleTargets t) (delegation_names t)
             = Some (Returns None, ((s', log), rt))"
    by (auto simp: targetTreeBuilder_def logged_def split: option.splits outcome.splits)
  have "length (recorded [(roleTargets, (Some t, None))]) + length (delegation_names t)
          \<le> length (recorded log)"
    by (rule targetTreeBuilder_loop_success_records
          [where call = "getDelegatedTarget n (logged fetcher)", OF _ loop])
       (rule getDelegatedTarget_success_records)
  moreover from targetTreeBuilder_logged [OF run] f t
  have "rt = replay (recorded log) ?init" by auto
  then have "Targets rt = t" by (simp add: Targets_replay)
  ultimately show ?thesis
    by (simp add: recorded_def recorded1_def)
qed

lemma wide_graph_run:
  "(case targetTreeBuilder 1 (seenFetcher wide_graph) [] of
      Some (Returns (Inr rt), seen) \<Rightarrow>
        seen = ''targets'' # wide_names \<and> list_all (\<lambda>name. targetLookup rt name \<noteq> None) seen
    | _ \<Rightarrow> False)"
  by code_simp

text \<open>
  C1: Delegation cap.  \<^verbatim>\<open>maxDelegationCount\<close> is 50.  On the graph whose top-level role
  delegates to 51 roles, the resolution fetches and records all 52 roles and returns the
  tree, where the claim says no role is fetched once 50 have been visited.
\<close>

theorem delegation_cap_not_enforced:
  "maxDelegationCount = 50
   \<and> (\<exists>rt seen. targetTreeBuilder 1 (seenFetcher wide_graph) [] = Some (Returns (Inr rt), seen)
         \<and> seen = ''targets'' # wide_names
         \<and> list_all (\<lambda>name. targetLookup rt name \<noteq> None) seen
         \<and> length seen = 52)"
proof -
  have len: "length wide_names = 51" by (simp add: wide_names_def)
  have "\<exists>rt seen. targetTreeBuilder 1 (seenFetcher wide_graph) [] = Some (Returns (Inr rt), seen)
         \<and> seen = ''targets'' # wide_names
         \<and> list_all (\<lambda>name. targetLookup rt name \<noteq> None) seen"
  proof (cases "targetTreeBuilder 1 (seenFetcher wide_graph) []")
    case None
    with wide_graph_run show ?thesis by simp
  next
    case (Some x)
    obtain res seen where x: "x = (res, seen)" by (cases x)
    show ?thesis
    proof (cases res)
      case (Panics msg)
      with Some x wide_graph_run show ?thesis by simp
    next
      case (Returns v)
      show ?thesis
      proof (cases v)
        case (Inl e)
        with Returns Some x wide_graph_run show ?thesis by simp
      next
        case (Inr rt)
        with Returns Some x wide_graph_run show ?thesis by auto
      qed
    qed
  qed
  with len show ?thesis
    by (auto simp: maxDelegationCount_def)
qed

end
